theory Spec2Isabelle
  imports Complex_Main "HOL-Library.Word"
begin

section \<open>Audio buffers\<close>

text \<open>
  The vocal extraction of \<open>src/components/VocalExtraction.tsx\<close> works on Web Audio
  \<open>AudioBuffer\<close> objects: a length, a sample rate, a channel count and one
  \<open>Float32Array\<close> per channel. A channel is a list of samples; samples are taken in
  exact arithmetic (type \<open>real\<close>), so the rounding of the 32-bit storage is outside
  the model.
\<close>

record AudioBuffer =
  length_ab :: nat
  sampleRate :: nat
  numberOfChannels :: nat
  channelData :: "real list list"

text \<open>
  \<open>context.createBuffer\<close> of the Web Audio API: every channel is zero-filled. The
  call throws \<open>NotSupportedError\<close> for a channel count or a length of zero (the
  browser's upper limits on channel count and sample rate are left out).
\<close>

definition createBuffer :: "nat \<Rightarrow> nat \<Rightarrow> nat \<Rightarrow> string + AudioBuffer" where
  "createBuffer n len rate =
     (if n = 0 \<or> len = 0 then Inl ''NotSupportedError''
      else Inr \<lparr>length_ab = len, sampleRate = rate, numberOfChannels = n,
                 channelData = replicate n (replicate len 0)\<rparr>)"

definition getChannelData :: "AudioBuffer \<Rightarrow> nat \<Rightarrow> real list" where
  "getChannelData b c = channelData b ! c"

text \<open>The shape every decoded or created buffer has.\<close>

definition wf_buffer :: "AudioBuffer \<Rightarrow> bool" where
  "wf_buffer b \<longleftrightarrow>
     length (channelData b) = numberOfChannels b \<and>
     list_all (\<lambda>ch. length ch = length_ab b) (channelData b)"

section \<open>Stereo branch: centre and side channels, smoothing\<close>

text \<open>
  First pass of \<open>extractVocals\<close> (the loop over \<open>i\<close> that fills \<open>centerChannel\<close>,
  \<open>sideChannelLeft\<close> and \<open>sideChannelRight\<close>). The side samples read the centre
  sample that the same iteration has just stored.
\<close>

function first_pass ::
  "real list \<Rightarrow> real list \<Rightarrow> nat \<Rightarrow> nat \<Rightarrow> real list \<times> real list \<times> real list
     \<Rightarrow> real list \<times> real list \<times> real list" where
  "first_pass leftChannel rightChannel len i (centerChannel, sideChannelLeft, sideChannelRight) =
     (if i < len then
        (let left = leftChannel ! i;
             right = rightChannel ! i;
             centerChannel' = centerChannel[i := (left + right) / 2];
             sideChannelLeft' = sideChannelLeft[i := left - centerChannel' ! i];
             sideChannelRight' = sideChannelRight[i := right - centerChannel' ! i]
         in first_pass leftChannel rightChannel len (Suc i)
              (centerChannel', sideChannelLeft', sideChannelRight'))
      else (centerChannel, sideChannelLeft, sideChannelRight))"
  by pat_completeness auto
termination
  by (relation "measure (\<lambda>(l, r, len, i, s). len - i)") auto

declare first_pass.simps [simp del]

definition smoothingFactor :: real where
  "smoothingFactor = 0.3"

text \<open>
  Second pass: the loop from \<open>i = 1\<close> over the four output channels. The state is
  (\<open>vocalsLeft\<close>, \<open>vocalsRight\<close>, \<open>accompanimentLeft\<close>, \<open>accompanimentRight\<close>).
\<close>

type_synonym stems = "real list \<times> real list \<times> real list \<times> real list"

function second_pass ::
  "real list \<Rightarrow> real list \<Rightarrow> real list \<Rightarrow> nat \<Rightarrow> nat \<Rightarrow> stems \<Rightarrow> stems" where
  "second_pass centerChannel sideChannelLeft sideChannelRight len i
       (vocalsLeft, vocalsRight, accompanimentLeft, accompanimentRight) =
     (if i < len then
        second_pass centerChannel sideChannelLeft sideChannelRight len (Suc i)
          (vocalsLeft[i := vocalsLeft ! (i - 1) * (1 - smoothingFactor)
                            + centerChannel ! i * smoothingFactor],
           vocalsRight[i := vocalsRight ! (i - 1) * (1 - smoothingFactor)
                            + centerChannel ! i * smoothingFactor],
           accompanimentLeft[i := accompanimentLeft ! (i - 1) * (1 - smoothingFactor)
                            + sideChannelLeft ! i * smoothingFactor],
           accompanimentRight[i := accompanimentRight ! (i - 1) * (1 - smoothingFactor)
                            + sideChannelRight ! i * smoothingFactor])
      else (vocalsLeft, vocalsRight, accompanimentLeft, accompanimentRight))"
  by pat_completeness auto
termination
  by (relation "measure (\<lambda>(c, sl, sr, len, i, s). len - i)") auto

declare second_pass.simps [simp del]

text \<open>
  The stereo separation up to the point where the tensor enhancement begins: both
  passes, with the four stores at index 0 in between. On an empty array a store at
  index 0 is dropped, as a typed array drops it.
\<close>

definition stereo_separate :: "real list \<Rightarrow> real list \<Rightarrow> nat \<Rightarrow> stems \<Rightarrow> stems" where
  "stereo_separate leftChannel rightChannel len st =
     (case st of (vocalsLeft, vocalsRight, accompanimentLeft, accompanimentRight) \<Rightarrow>
        (case first_pass leftChannel rightChannel len 0
                (replicate len 0, replicate len 0, replicate len 0) of
           (centerChannel, sideChannelLeft, sideChannelRight) \<Rightarrow>
             second_pass centerChannel sideChannelLeft sideChannelRight len 1
               (vocalsLeft[0 := centerChannel ! 0],
                vocalsRight[0 := centerChannel ! 0],
                accompanimentLeft[0 := sideChannelLeft ! 0],
                accompanimentRight[0 := sideChannelRight ! 0])))"

text \<open>
  The smoothing filter as the specification words it: \<open>y[0] = x[0]\<close> and
  \<open>y[i] = y[i-1] * 0.7 + x[i] * 0.3\<close>.
\<close>

fun smoothed :: "(nat \<Rightarrow> real) \<Rightarrow> nat \<Rightarrow> real" where
  "smoothed x 0 = x 0"
| "smoothed x (Suc i) = smoothed x i * 0.7 + x (Suc i) * 0.3"

text \<open>The centre and side signals of the first two channels, as the specification names them.\<close>

definition center :: "AudioBuffer \<Rightarrow> nat \<Rightarrow> real" where
  "center b i = (getChannelData b 0 ! i + getChannelData b 1 ! i) / 2"

definition sideLeft :: "AudioBuffer \<Rightarrow> nat \<Rightarrow> real" where
  "sideLeft b i = getChannelData b 0 ! i - center b i"

definition sideRight :: "AudioBuffer \<Rightarrow> nat \<Rightarrow> real" where
  "sideRight b i = getChannelData b 1 ! i - center b i"

section \<open>Tensor enhancement\<close>

text \<open>
  TensorFlow.js is an external library. Its calls are modelled by what they compute
  (\<open>tensor2d\<close> keeps the rows, \<open>mul\<close> and \<open>tanh\<close> work element-wise, \<open>data\<close>
  flattens the rows in order), and each call of the \<open>try\<close> block may throw: a backend
  is the predicate that says which of the calls throw. The state \<open>tf\<close> of the
  component is \<open>None\<close> while the library is not loaded.
\<close>

datatype tf_call =
    Tensor2dVocals | Tensor2dAccompaniment
  | MulVocals | TanhVocals | MulAccompaniment | TanhAccompaniment
  | DataVocals | DataAccompaniment
  | DisposeVocalsTensor | DisposeAccompanimentTensor
  | DisposeVocalsEnhanced | DisposeAccompanimentEnhanced

type_synonym tfjs = "tf_call \<Rightarrow> bool"

definition tf_do :: "tfjs \<Rightarrow> tf_call \<Rightarrow> 'a \<Rightarrow> string + 'a" where
  "tf_do throws c v = (if throws c then Inl ''tfError'' else Inr v)"

definition bind_exn :: "string + 'a \<Rightarrow> ('a \<Rightarrow> string + 'b) \<Rightarrow> string + 'b" where
  "bind_exn m f = (case m of Inl e \<Rightarrow> Inl e | Inr x \<Rightarrow> f x)"

text \<open>
  The \<open>try\<close> block up to the two \<open>await ....data()\<close>: the eight library calls in
  program order. The result is the pair (\<open>vocalsData\<close>, \<open>accompanimentData\<close>).
\<close>

definition tf_transform :: "tfjs \<Rightarrow> stems \<Rightarrow> string + (real list \<times> real list)" where
  "tf_transform throws st =
     (case st of (vocalsLeft, vocalsRight, accompanimentLeft, accompanimentRight) \<Rightarrow>
        bind_exn (tf_do throws Tensor2dVocals [vocalsLeft, vocalsRight]) (\<lambda>vocalsTensor.
        bind_exn (tf_do throws Tensor2dAccompaniment [accompanimentLeft, accompanimentRight])
          (\<lambda>accompanimentTensor.
        bind_exn (tf_do throws MulVocals (map (map (\<lambda>x. x * 1.2)) vocalsTensor)) (\<lambda>vocalsScaled.
        bind_exn (tf_do throws TanhVocals (map (map tanh) vocalsScaled)) (\<lambda>vocalsEnhanced.
        bind_exn (tf_do throws MulAccompaniment (map (map (\<lambda>x. x * 1.1)) accompanimentTensor))
          (\<lambda>accompanimentScaled.
        bind_exn (tf_do throws TanhAccompaniment (map (map tanh) accompanimentScaled))
          (\<lambda>accompanimentEnhanced.
        bind_exn (tf_do throws DataVocals (concat vocalsEnhanced)) (\<lambda>vocalsData.
        bind_exn (tf_do throws DataAccompaniment (concat accompanimentEnhanced))
          (\<lambda>accompanimentData.
        Inr (vocalsData, accompanimentData))))))))))"

text \<open>The loop that copies the enhanced data back into the four channels.\<close>

function copy_back :: "real list \<Rightarrow> real list \<Rightarrow> nat \<Rightarrow> nat \<Rightarrow> stems \<Rightarrow> stems" where
  "copy_back vocalsData accompanimentData len i
       (vocalsLeft, vocalsRight, accompanimentLeft, accompanimentRight) =
     (if i < len then
        copy_back vocalsData accompanimentData len (Suc i)
          (vocalsLeft[i := vocalsData ! i],
           vocalsRight[i := vocalsData ! (i + len)],
           accompanimentLeft[i := accompanimentData ! i],
           accompanimentRight[i := accompanimentData ! (i + len)])
      else (vocalsLeft, vocalsRight, accompanimentLeft, accompanimentRight))"
  by pat_completeness auto
termination
  by (relation "measure (\<lambda>(vd, ad, len, i, s). len - i)") auto

declare copy_back.simps [simp del]

text \<open>The four \<open>dispose\<close> calls that end the \<open>try\<close> block.\<close>

definition tf_dispose :: "tfjs \<Rightarrow> string + unit" where
  "tf_dispose throws =
     bind_exn (tf_do throws DisposeVocalsTensor ()) (\<lambda>_.
     bind_exn (tf_do throws DisposeAccompanimentTensor ()) (\<lambda>_.
     bind_exn (tf_do throws DisposeVocalsEnhanced ()) (\<lambda>_.
     tf_do throws DisposeAccompanimentEnhanced ())))"

text \<open>
  \<open>if (tf) { try { ... } catch (tfError) { console.warn(...) } }\<close>: whatever the
  block throws is caught, and the code goes on with the channels as they are at that
  moment.
\<close>

definition enhance :: "tfjs option \<Rightarrow> nat \<Rightarrow> stems \<Rightarrow> stems" where
  "enhance tf len st =
     (case tf of
        None \<Rightarrow> st
      | Some throws \<Rightarrow>
          (case tf_transform throws st of
             Inl tfError \<Rightarrow> st
           | Inr (vocalsData, accompanimentData) \<Rightarrow>
               (let st' = copy_back vocalsData accompanimentData len 0 st
                in case tf_dispose throws of Inl tfError \<Rightarrow> st' | Inr _ \<Rightarrow> st')))"

text \<open>
  The enhancement stops before the copy-back when the library is not loaded, or when
  one of the eight calls that make, transform or read back the tensors throws. The
  four \<open>dispose\<close> calls come after the copy-back and are not among them.
\<close>

definition transform_calls :: "tf_call list" where
  "transform_calls =
     [Tensor2dVocals, Tensor2dAccompaniment, MulVocals, TanhVocals,
      MulAccompaniment, TanhAccompaniment, DataVocals, DataAccompaniment]"

definition stops_before_copy_back :: "tfjs option \<Rightarrow> bool" where
  "stops_before_copy_back tf =
     (case tf of None \<Rightarrow> True | Some throws \<Rightarrow> list_ex throws transform_calls)"

text \<open>
  The backend none of whose calls throws, and the backend whose first \<open>dispose\<close>
  call throws.
\<close>

definition tf_reliable :: tfjs where
  "tf_reliable c = False"

definition tf_dispose_throws :: tfjs where
  "tf_dispose_throws c = (c = DisposeVocalsTensor)"

section \<open>Mono branch: weighted windows, overlap-add\<close>

definition windowSize :: nat where
  "windowSize = 1024"

definition hopSize :: nat where
  "hopSize = windowSize div 4"

text \<open>The loop that fills \<open>vocalsWindow\<close> and \<open>accompanimentWindow\<close> from one window.\<close>

function weight_loop :: "real list \<Rightarrow> nat \<Rightarrow> real list \<times> real list \<Rightarrow> real list \<times> real list" where
  "weight_loop window i (vocalsWindow, accompanimentWindow) =
     (if i < windowSize then
        (let sample = window ! i;
             freqWeight = real i / real windowSize;
             vocalWeight = min 1 (freqWeight * 3);
             accompanimentWeight = min 1 ((1 - freqWeight) * 2)
         in weight_loop window (Suc i)
              (vocalsWindow[i := sample * vocalWeight],
               accompanimentWindow[i := sample * accompanimentWeight]))
      else (vocalsWindow, accompanimentWindow))"
  by pat_completeness auto
termination
  by (relation "measure (\<lambda>(w, i, s). windowSize - i)") auto

text \<open>The loop that adds the two windows into the output channels at \<open>start\<close>.\<close>

function copy_loop ::
  "nat \<Rightarrow> nat \<Rightarrow> real list \<Rightarrow> real list \<Rightarrow> nat \<Rightarrow> real list \<times> real list
     \<Rightarrow> real list \<times> real list" where
  "copy_loop start len vocalsWindow accompanimentWindow i (vocalsData, accompanimentData) =
     (if i < windowSize \<and> start + i < len then
        copy_loop start len vocalsWindow accompanimentWindow (Suc i)
          (vocalsData[start + i := vocalsData ! (start + i) + vocalsWindow ! i],
           accompanimentData[start + i := accompanimentData ! (start + i)
                                            + accompanimentWindow ! i])
      else (vocalsData, accompanimentData))"
  by pat_completeness auto
termination
  by (relation "measure (\<lambda>(s, len, vw, aw, i, d). windowSize - i)") auto

text \<open>
  The loop over the window starts: \<open>for (start = 0; start < length - windowSize;
  start += hopSize)\<close>. The difference \<open>length - windowSize\<close> may be negative, so the
  test is written on integers. \<open>inputData.slice(start, start + windowSize)\<close> is the
  window.
\<close>

function mono_loop ::
  "real list \<Rightarrow> nat \<Rightarrow> nat \<Rightarrow> real list \<times> real list \<Rightarrow> real list \<times> real list" where
  "mono_loop inputData len start (vocalsData, accompanimentData) =
     (if int start < int len - int windowSize then
        (let window = take windowSize (drop start inputData) in
         case weight_loop window 0 (replicate windowSize 0, replicate windowSize 0) of
           (vocalsWindow, accompanimentWindow) \<Rightarrow>
             mono_loop inputData len (start + hopSize)
               (copy_loop start len vocalsWindow accompanimentWindow 0
                  (vocalsData, accompanimentData)))
      else (vocalsData, accompanimentData))"
  by pat_completeness auto
termination
  by (relation "measure (\<lambda>(inp, len, start, d). len - start)")
     (simp_all add: hopSize_def windowSize_def del: weight_loop.simps copy_loop.simps)

declare weight_loop.simps [simp del] copy_loop.simps [simp del] mono_loop.simps [simp del]

text \<open>
  The overlap-add in the specification's words. The windows are the full windows:
  they start at the multiples of the hop size and end inside the input
  (\<open>s + 1024 \<le> length\<close>). The window at \<open>s\<close> adds \<open>sample[s+j] * weight j\<close> to
  the output at \<open>s + j\<close> for every \<open>j\<close> below the window size.
\<close>

definition vocalWeight :: "nat \<Rightarrow> real" where
  "vocalWeight j = min 1 (real j / real windowSize * 3)"

definition accompanimentWeight :: "nat \<Rightarrow> real" where
  "accompanimentWeight j = min 1 ((1 - real j / real windowSize) * 2)"

definition full_window_starts :: "nat \<Rightarrow> nat list" where
  "full_window_starts len =
     filter (\<lambda>s. hopSize dvd s \<and> s + windowSize \<le> len) [0..<len]"

definition contribution :: "(nat \<Rightarrow> real) \<Rightarrow> real list \<Rightarrow> nat \<Rightarrow> nat \<Rightarrow> real" where
  "contribution w inputData s k =
     (if s \<le> k \<and> k < s + windowSize then inputData ! k * w (k - s) else 0)"

definition overlap_add :: "(nat \<Rightarrow> real) \<Rightarrow> real list \<Rightarrow> nat \<Rightarrow> real" where
  "overlap_add w inputData k =
     (\<Sum>s\<leftarrow>full_window_starts (length inputData). contribution w inputData s k)"

text \<open>
  The window starts that the loop of the code visits from \<open>start\<close> on, in order,
  with the loop's own test.
\<close>

function starts_from :: "nat \<Rightarrow> nat \<Rightarrow> nat list" where
  "starts_from len start =
     (if int start < int len - int windowSize
      then start # starts_from len (start + hopSize) else [])"
  by pat_completeness auto
termination
  by (relation "measure (\<lambda>(len, start). len - start)")
     (simp_all add: hopSize_def windowSize_def)

declare starts_from.simps [simp del]

section \<open>Normalization\<close>

text \<open>The loop that finds \<open>maxVocals\<close> and \<open>maxAccompaniment\<close> of one channel.\<close>

function max_loop :: "real list \<Rightarrow> real list \<Rightarrow> nat \<Rightarrow> nat \<Rightarrow> real \<times> real \<Rightarrow> real \<times> real" where
  "max_loop vocalsData accompanimentData len i (maxVocals, maxAccompaniment) =
     (if i < len then
        (let vocalsAbs = \<bar>vocalsData ! i\<bar>;
             accompanimentAbs = \<bar>accompanimentData ! i\<bar>
         in max_loop vocalsData accompanimentData len (Suc i)
              (if vocalsAbs > maxVocals then vocalsAbs else maxVocals,
               if accompanimentAbs > maxAccompaniment then accompanimentAbs
               else maxAccompaniment))
      else (maxVocals, maxAccompaniment))"
  by pat_completeness auto
termination
  by (relation "measure (\<lambda>(v, a, len, i, m). len - i)") auto

text \<open>The loop \<open>data[i] *= gain\<close>.\<close>

function gain_loop :: "real \<Rightarrow> nat \<Rightarrow> nat \<Rightarrow> real list \<Rightarrow> real list" where
  "gain_loop gain len i d =
     (if i < len then gain_loop gain len (Suc i) (d[i := d ! i * gain]) else d)"
  by pat_completeness auto
termination
  by (relation "measure (\<lambda>(g, len, i, d). len - i)") auto

declare max_loop.simps [simp del] gain_loop.simps [simp del]

text \<open>The body of the loop over the channels.\<close>

definition normalize_channel :: "nat \<Rightarrow> real list \<times> real list \<Rightarrow> real list \<times> real list" where
  "normalize_channel len vd =
     (case vd of (vocalsData, accompanimentData) \<Rightarrow>
        (case max_loop vocalsData accompanimentData len 0 (0, 0) of
           (maxVocals, maxAccompaniment) \<Rightarrow>
             (if maxVocals > 0
              then gain_loop (min 1 (0.9 / maxVocals)) len 0 vocalsData
              else vocalsData,
              if maxAccompaniment > 0
              then gain_loop (min 1 (0.9 / maxAccompaniment)) len 0 accompanimentData
              else accompanimentData)))"

text \<open>
  \<open>for (channel = 0; channel < numberOfChannels; channel++)\<close> over the channels of
  the vocals buffer and of the accompaniment buffer.
\<close>

function normalize_loop ::
  "nat \<Rightarrow> nat \<Rightarrow> nat \<Rightarrow> real list list \<times> real list list \<Rightarrow> real list list \<times> real list list" where
  "normalize_loop n len channel (vocalsChannels, accompanimentChannels) =
     (if channel < n then
        (case normalize_channel len (vocalsChannels ! channel, accompanimentChannels ! channel) of
           (vocalsData, accompanimentData) \<Rightarrow>
             normalize_loop n len (Suc channel)
               (vocalsChannels[channel := vocalsData],
                accompanimentChannels[channel := accompanimentData]))
      else (vocalsChannels, accompanimentChannels))"
  by pat_completeness auto
termination
  by (relation "measure (\<lambda>(n, len, channel, d). n - channel)") auto

declare normalize_loop.simps [simp del]

text \<open>
  The peak of a channel, as the specification names it: the largest absolute sample
  (0 for a channel without samples).
\<close>

definition peak :: "real list \<Rightarrow> real" where
  "peak xs = Max (insert 0 ((\<lambda>x. \<bar>x\<bar>) ` set xs))"

text \<open>The normalization of one channel in the specification's words.\<close>

definition normalized :: "real list \<Rightarrow> real list" where
  "normalized xs =
     (if peak xs > 0 then map (\<lambda>x. x * min 1 (0.9 / peak xs)) xs else xs)"

section \<open>The extraction\<close>

text \<open>
  \<open>extractVocals\<close>: two fresh buffers of the input's shape, the stereo branch for two
  channels or more (channels 0 and 1 only) and the mono branch otherwise, then the
  normalization of every channel of both buffers.
\<close>

definition stereo_stems :: "AudioBuffer \<Rightarrow> AudioBuffer \<Rightarrow> AudioBuffer \<Rightarrow> stems" where
  "stereo_stems audioBuffer vocalsBuffer accompanimentBuffer =
     stereo_separate (getChannelData audioBuffer 0) (getChannelData audioBuffer 1)
       (length_ab audioBuffer)
       (getChannelData vocalsBuffer 0, getChannelData vocalsBuffer 1,
        getChannelData accompanimentBuffer 0, getChannelData accompanimentBuffer 1)"

definition mono_stems ::
  "AudioBuffer \<Rightarrow> AudioBuffer \<Rightarrow> AudioBuffer \<Rightarrow> real list \<times> real list" where
  "mono_stems audioBuffer vocalsBuffer accompanimentBuffer =
     mono_loop (getChannelData audioBuffer 0) (length_ab audioBuffer) 0
       (getChannelData vocalsBuffer 0, getChannelData accompanimentBuffer 0)"

definition separate ::
  "tfjs option \<Rightarrow> AudioBuffer \<Rightarrow> AudioBuffer \<Rightarrow> AudioBuffer
     \<Rightarrow> real list list \<times> real list list" where
  "separate tf audioBuffer vocalsBuffer accompanimentBuffer =
     (if numberOfChannels audioBuffer \<ge> 2 then
        (case enhance tf (length_ab audioBuffer)
                (stereo_stems audioBuffer vocalsBuffer accompanimentBuffer) of
           (vocalsLeft, vocalsRight, accompanimentLeft, accompanimentRight) \<Rightarrow>
             ((channelData vocalsBuffer)[0 := vocalsLeft, 1 := vocalsRight],
              (channelData accompanimentBuffer)[0 := accompanimentLeft,
                                               1 := accompanimentRight]))
      else
        (case mono_stems audioBuffer vocalsBuffer accompanimentBuffer of
           (vocalsData, accompanimentData) \<Rightarrow>
             ((channelData vocalsBuffer)[0 := vocalsData],
              (channelData accompanimentBuffer)[0 := accompanimentData])))"

definition extractVocals ::
  "tfjs option \<Rightarrow> AudioBuffer \<Rightarrow> string + (AudioBuffer \<times> AudioBuffer)" where
  "extractVocals tf audioBuffer =
     bind_exn (createBuffer (numberOfChannels audioBuffer) (length_ab audioBuffer)
                 (sampleRate audioBuffer)) (\<lambda>vocalsBuffer.
     bind_exn (createBuffer (numberOfChannels audioBuffer) (length_ab audioBuffer)
                 (sampleRate audioBuffer)) (\<lambda>accompanimentBuffer.
       (case normalize_loop (numberOfChannels audioBuffer) (length_ab audioBuffer) 0
               (separate tf audioBuffer vocalsBuffer accompanimentBuffer) of
          (vocalsChannels, accompanimentChannels) \<Rightarrow>
            Inr (vocalsBuffer\<lparr>channelData := vocalsChannels\<rparr>,
                 accompanimentBuffer\<lparr>channelData := accompanimentChannels\<rparr>))))"

section \<open>The container encoder\<close>

text \<open>
  The \<open>DataView\<close> over the \<open>ArrayBuffer\<close> is a list of bytes (numbers below 256).
  Each setter stores its value modulo the width of the field, little-endian as the
  code asks for. Every offset the encoder writes to lies inside the buffer.
\<close>

definition setUint8 :: "nat list \<Rightarrow> nat \<Rightarrow> nat \<Rightarrow> nat list" where
  "setUint8 view off v = view[off := v mod 256]"

definition setUint16 :: "nat list \<Rightarrow> nat \<Rightarrow> nat \<Rightarrow> nat list" where
  "setUint16 view off v = (view[off := v mod 256])[off + 1 := (v div 256) mod 256]"

definition setUint32 :: "nat list \<Rightarrow> nat \<Rightarrow> nat \<Rightarrow> nat list" where
  "setUint32 view off v =
     (((view[off := v mod 256])[off + 1 := (v div 256) mod 256])
        [off + 2 := (v div 65536) mod 256])[off + 3 := (v div 16777216) mod 256]"

text \<open>
  \<open>setInt16\<close> of a number: the fraction is cut off towards zero and the integer is
  taken modulo \<open>2^16\<close> (two's complement).
\<close>

definition toInteger :: "real \<Rightarrow> int" where
  "toInteger x = (if 0 \<le> x then \<lfloor>x\<rfloor> else \<lceil>x\<rceil>)"

definition setInt16 :: "nat list \<Rightarrow> nat \<Rightarrow> real \<Rightarrow> nat list" where
  "setInt16 view off x = setUint16 view off (nat (toInteger x mod 65536))"

text \<open>The local function \<open>writeString\<close>: one byte per character.\<close>

fun writeString_from :: "nat list \<Rightarrow> nat \<Rightarrow> string \<Rightarrow> nat list" where
  "writeString_from view off [] = view"
| "writeString_from view off (c # cs) =
     writeString_from (setUint8 view off (of_char c)) (off + 1) cs"

definition writeString :: "nat list \<Rightarrow> nat \<Rightarrow> string \<Rightarrow> nat list" where
  "writeString view off string = writeString_from view off string"

text \<open>The 44 bytes of the header, in the order of the code.\<close>

definition wav_header :: "AudioBuffer \<Rightarrow> nat list \<Rightarrow> nat list" where
  "wav_header audioBuffer view0 =
     (let len = length_ab audioBuffer;
          rate = sampleRate audioBuffer;
          n = numberOfChannels audioBuffer;
          view1 = writeString view0 0 ''RIFF'';
          view2 = setUint32 view1 4 (36 + len * n * 2);
          view3 = writeString view2 8 ''WAVE'';
          view4 = writeString view3 12 ''fmt '';
          view5 = setUint32 view4 16 16;
          view6 = setUint16 view5 20 1;
          view7 = setUint16 view6 22 n;
          view8 = setUint32 view7 24 rate;
          view9 = setUint32 view8 28 (rate * n * 2);
          view10 = setUint16 view9 32 (n * 2);
          view11 = setUint16 view10 34 16;
          view12 = writeString view11 36 ''data''
      in setUint32 view12 40 (len * n * 2))"

text \<open>
  The two nested loops over the samples: the sample is clamped to \<open>[-1, 1]\<close>, scaled
  by \<open>0x7fff\<close> and stored as a 16-bit integer; the state is the view and the offset.
\<close>

function wav_channel_loop ::
  "AudioBuffer \<Rightarrow> nat \<Rightarrow> nat \<Rightarrow> nat list \<times> nat \<Rightarrow> nat list \<times> nat" where
  "wav_channel_loop audioBuffer i channel (view, offset) =
     (if channel < numberOfChannels audioBuffer then
        (let sample = max (- 1) (min 1 (getChannelData audioBuffer channel ! i))
         in wav_channel_loop audioBuffer i (Suc channel)
              (setInt16 view offset (sample * 32767), offset + 2))
      else (view, offset))"
  by pat_completeness auto
termination
  by (relation "measure (\<lambda>(b, i, channel, s). numberOfChannels b - channel)") auto

declare wav_channel_loop.simps [simp del]

function wav_sample_loop :: "AudioBuffer \<Rightarrow> nat \<Rightarrow> nat list \<times> nat \<Rightarrow> nat list \<times> nat" where
  "wav_sample_loop audioBuffer i (view, offset) =
     (if i < length_ab audioBuffer then
        wav_sample_loop audioBuffer (Suc i) (wav_channel_loop audioBuffer i 0 (view, offset))
      else (view, offset))"
  by pat_completeness auto
termination
  by (relation "measure (\<lambda>(b, i, s). length_ab b - i)") auto

declare wav_sample_loop.simps [simp del]

text \<open>The bytes of the \<open>ArrayBuffer\<close> \<open>wavData\<close> when the loops are done.\<close>

definition wavData :: "AudioBuffer \<Rightarrow> nat list" where
  "wavData audioBuffer =
     fst (wav_sample_loop audioBuffer 0
            (wav_header audioBuffer
               (replicate (44 + length_ab audioBuffer * numberOfChannels audioBuffer * 2) 0),
             44))"

text \<open>
  \<open>btoa\<close> of the browser is the standard Base64 encoding of a string of bytes, and
  \<open>atob\<close> is its inverse.
\<close>

definition b64_char :: "nat \<Rightarrow> char" where
  "b64_char i =
     (if i < 26 then char_of (65 + i)
      else if i < 52 then char_of (97 + (i - 26))
      else if i < 62 then char_of (48 + (i - 52))
      else if i = 62 then CHR ''+'' else CHR ''/'')"

fun btoa :: "string \<Rightarrow> string" where
  "btoa [] = []"
| "btoa [a] =
     (let x = (of_char a :: nat)
      in [b64_char (x div 4), b64_char ((x mod 4) * 16), CHR ''='', CHR ''=''])"
| "btoa [a, b] =
     (let x = (of_char a :: nat); y = (of_char b :: nat)
      in [b64_char (x div 4), b64_char ((x mod 4) * 16 + y div 16),
          b64_char ((y mod 16) * 4), CHR ''=''])"
| "btoa (a # b # c # rest) =
     (let x = (of_char a :: nat); y = (of_char b :: nat); z = (of_char c :: nat)
      in [b64_char (x div 4), b64_char ((x mod 4) * 16 + y div 16),
          b64_char ((y mod 16) * 4 + z div 64), b64_char (z mod 64)] @ btoa rest)"

definition b64_value :: "char \<Rightarrow> nat" where
  "b64_value c =
     (let n = (of_char c :: nat) in
      if 65 \<le> n \<and> n < 91 then n - 65
      else if 97 \<le> n \<and> n < 123 then n - 97 + 26
      else if 48 \<le> n \<and> n < 58 then n - 48 + 52
      else if c = CHR ''+'' then 62 else 63)"

fun atob :: "string \<Rightarrow> string" where
  "atob (p # q # r # s # rest) =
     (let a = b64_value p; b = b64_value q; c = b64_value r; d = b64_value s
      in if r = CHR ''='' then [char_of (a * 4 + b div 16)]
         else if s = CHR ''='' then
           [char_of (a * 4 + b div 16), char_of ((b mod 16) * 16 + c div 4)]
         else [char_of (a * 4 + b div 16), char_of ((b mod 16) * 16 + c div 4),
               char_of ((c mod 4) * 64 + d)] @ atob rest)"
| "atob _ = []"

text \<open>
  \<open>audioBufferToWavBase64\<close>, \<open>audioBufferToMp3Base64\<close> and \<open>audioBufferToBase64\<close>.
  The string \<open>binary\<close> has one character per byte.
\<close>

datatype AudioFormat = Mp3 | Wav

definition audioBufferToWavBase64 :: "AudioBuffer \<Rightarrow> string" where
  "audioBufferToWavBase64 audioBuffer = btoa (map char_of (wavData audioBuffer))"

definition audioBufferToMp3Base64 :: "AudioBuffer \<Rightarrow> string" where
  "audioBufferToMp3Base64 audioBuffer = audioBufferToWavBase64 audioBuffer"

definition audioBufferToBase64 :: "AudioBuffer \<Rightarrow> AudioFormat \<Rightarrow> string" where
  "audioBufferToBase64 audioBuffer format =
     (if format = Wav then audioBufferToWavBase64 audioBuffer
      else audioBufferToMp3Base64 audioBuffer)"

text \<open>
  A valid wav container as the specification describes it: a 44-byte header with the
  \<open>RIFF\<close>, \<open>WAVE\<close>, \<open>fmt \<close> and \<open>data\<close> tags, PCM format code 1, 16 bits per
  sample, block align \<open>channels * 2\<close>, byte rate \<open>rate * channels * 2\<close>, the two
  sizes that fit the buffer, and whole sample frames after the header. The parser
  returns the channel count, the sample rate and the number of frames.
\<close>

definition u16le :: "nat list \<Rightarrow> nat \<Rightarrow> nat" where
  "u16le bs off = bs ! off + 256 * bs ! (off + 1)"

definition u32le :: "nat list \<Rightarrow> nat \<Rightarrow> nat" where
  "u32le bs off =
     bs ! off + 256 * bs ! (off + 1) + 65536 * bs ! (off + 2) + 16777216 * bs ! (off + 3)"

definition has_tag :: "nat list \<Rightarrow> nat \<Rightarrow> string \<Rightarrow> bool" where
  "has_tag bs off tag \<longleftrightarrow> take (length tag) (drop off bs) = map of_char tag"

definition parse_wav :: "nat list \<Rightarrow> (nat \<times> nat \<times> nat) option" where
  "parse_wav bs =
     (if 44 \<le> length bs \<and>
         has_tag bs 0 ''RIFF'' \<and> u32le bs 4 + 8 = length bs \<and>
         has_tag bs 8 ''WAVE'' \<and> has_tag bs 12 ''fmt '' \<and>
         u32le bs 16 = 16 \<and> u16le bs 20 = 1 \<and> 1 \<le> u16le bs 22 \<and>
         u32le bs 28 = u32le bs 24 * u16le bs 22 * 2 \<and>
         u16le bs 32 = u16le bs 22 * 2 \<and> u16le bs 34 = 16 \<and>
         has_tag bs 36 ''data'' \<and> u32le bs 40 + 44 = length bs \<and>
         (length bs - 44) mod (u16le bs 22 * 2) = 0
      then Some (u16le bs 22, u32le bs 24, (length bs - 44) div (u16le bs 22 * 2))
      else None)"

text \<open>Every element is a byte.\<close>

definition bytes :: "nat list \<Rightarrow> bool" where
  "bytes bs \<longleftrightarrow> (\<forall>x\<in>set bs. x < 256)"


section \<open>The orchestrator\<close>

text \<open>
  The state of the component \<open>VocalExtraction\<close>: the values held by its
  \<open>useState\<close> hooks. A file is the string of its content. A result holds the
  vocals, the accompaniment and the original; the original is \<open>None\<close> when the data
  URL has no part after a comma.
\<close>

record ExtractionState =
  inputFile :: "string option"
  isProcessing :: bool
  error :: "string option"
  result :: "(string \<times> string \<times> string option) option"
  progress :: nat
  engineLoaded :: bool
  tf :: "tfjs option"

text \<open>
  What the environment decides for one call of \<open>processAudioWithAI\<close>: the timer of
  30 seconds fires first, the \<open>FileReader\<close> fails, decoding fails or runs into its
  timer of 10 seconds, or decoding yields a buffer.
\<close>

datatype pipeline_outcome =
    RunTimedOut | ReaderFailed | DecodeFailed string | DecodeTimedOut | Decoded AudioBuffer

text \<open>\<open>processAudioWithAI\<close>: \<open>Inl\<close> is the message of the rejected promise.\<close>

definition processAudioWithAI ::
  "tfjs option \<Rightarrow> AudioFormat \<Rightarrow> pipeline_outcome \<Rightarrow> string + (string \<times> string)" where
  "processAudioWithAI tfjs outputFormat outcome =
     (case outcome of
        RunTimedOut \<Rightarrow> Inl ''Audio processing timed out after 30 seconds''
      | ReaderFailed \<Rightarrow> Inl ''Failed to read audio file''
      | DecodeFailed err \<Rightarrow> Inl err
      | DecodeTimedOut \<Rightarrow> Inl ''Audio decoding timed out''
      | Decoded audioBuffer \<Rightarrow>
          bind_exn (extractVocals tfjs audioBuffer) (\<lambda>(vocals, accompaniment).
            Inr (audioBufferToBase64 vocals outputFormat,
                 audioBufferToBase64 accompaniment outputFormat)))"

text \<open>
  \<open>handleExtractVocals\<close> up to the call \<open>reader.readAsDataURL(inputFile)\<close>. The
  second component is the file handed to the reader, \<open>None\<close> when no reader is
  started. Setting up a fresh \<open>FileReader\<close> does not throw, so the outer \<open>catch\<close>
  has no branch here.
\<close>

definition handleExtractVocals :: "ExtractionState \<Rightarrow> ExtractionState \<times> string option" where
  "handleExtractVocals s =
     (if isProcessing s then (s, None)
      else case inputFile s of
        None \<Rightarrow> (s\<lparr>error := Some ''Please select an audio file''\<rparr>, None)
      | Some file \<Rightarrow>
          if \<not> engineLoaded s then
            (s\<lparr>error :=
                 Some ''Audio processing engine is not ready yet. Please wait a moment.''\<rparr>,
             None)
          else (s\<lparr>isProcessing := True, error := None, result := None, progress := 0\<rparr>,
                Some file))"

text \<open>\<open>(reader.result as string).split(",")[1]\<close>.\<close>

definition split_comma :: "string \<Rightarrow> string list" where
  "split_comma s = foldr (\<lambda>c parts. if c = CHR '','' then [] # parts
                                    else (c # hd parts) # tl parts) s [[]]"

definition originalBase64 :: "string \<Rightarrow> string option" where
  "originalBase64 dataUrl =
     (case split_comma dataUrl of p0 # p1 # _ \<Rightarrow> Some p1 | _ \<Rightarrow> None)"

text \<open>
  The callback \<open>reader.onload\<close> in two steps: up to the \<open>await\<close>, and from the
  settled promise through \<open>catch\<close> and \<open>finally\<close>. The callback \<open>reader.onerror\<close>.
\<close>

definition onload_begin :: "ExtractionState \<Rightarrow> ExtractionState" where
  "onload_begin s = s\<lparr>progress := 25\<rparr>"

definition onload_settle ::
  "AudioFormat \<Rightarrow> string option \<Rightarrow> pipeline_outcome \<Rightarrow> ExtractionState \<Rightarrow> ExtractionState" where
  "onload_settle outputFormat original outcome s =
     (let s' = (case processAudioWithAI (tf s) outputFormat outcome of
                  Inr (vocals, accompaniment) \<Rightarrow>
                    s\<lparr>progress := 100, result := Some (vocals, accompaniment, original)\<rparr>
                | Inl message \<Rightarrow> s\<lparr>error := Some message\<rparr>)
      in s'\<lparr>isProcessing := False, progress := 0\<rparr>)"

definition reader_onerror :: "ExtractionState \<Rightarrow> ExtractionState" where
  "reader_onerror s =
     s\<lparr>error := Some ''Failed to read the audio file'', isProcessing := False, progress := 0\<rparr>"

text \<open>
  The component as a machine: its state and the runs in flight, each either reading
  the file or waiting for \<open>processAudioWithAI\<close>. An event is a call of a handler or a
  callback; a callback for a run that is not in flight changes nothing.
\<close>

datatype run_phase = Reading | Processing "string option"

datatype event =
    SetInputFile "string option"
  | EngineReady tfjs
  | EngineFailed
  | Click
  | ReaderLoad nat string
  | ReaderError nat
  | Settle nat pipeline_outcome

definition initial_state :: ExtractionState where
  "initial_state =
     \<lparr>inputFile = None, isProcessing = False, error = None, result = None, progress = 0,
      engineLoaded = False, tf = None\<rparr>"

fun dispatch ::
  "AudioFormat \<Rightarrow> ExtractionState \<times> run_phase list \<Rightarrow> event
     \<Rightarrow> ExtractionState \<times> run_phase list" where
  "dispatch fmt (s, runs) (SetInputFile f) = (s\<lparr>inputFile := f\<rparr>, runs)"
| "dispatch fmt (s, runs) (EngineReady tfjs) = (s\<lparr>tf := Some tfjs, engineLoaded := True\<rparr>, runs)"
| "dispatch fmt (s, runs) EngineFailed =
     (s\<lparr>error := Some ''Failed to initialize AI processing engine''\<rparr>, runs)"
| "dispatch fmt (s, runs) Click =
     (case handleExtractVocals s of
        (s', None) \<Rightarrow> (s', runs)
      | (s', Some file) \<Rightarrow> (s', runs @ [Reading]))"
| "dispatch fmt (s, runs) (ReaderLoad i dataUrl) =
     (if i < length runs \<and> runs ! i = Reading
      then (onload_begin s, runs[i := Processing (originalBase64 dataUrl)])
      else (s, runs))"
| "dispatch fmt (s, runs) (ReaderError i) =
     (if i < length runs \<and> runs ! i = Reading
      then (reader_onerror s, take i runs @ drop (Suc i) runs)
      else (s, runs))"
| "dispatch fmt (s, runs) (Settle i outcome) =
     (if i < length runs then
        (case runs ! i of
           Processing original \<Rightarrow>
             (onload_settle fmt original outcome s, take i runs @ drop (Suc i) runs)
         | Reading \<Rightarrow> (s, runs))
      else (s, runs))"

definition run_events ::
  "AudioFormat \<Rightarrow> event list \<Rightarrow> ExtractionState \<times> run_phase list" where
  "run_events fmt evs = foldl (dispatch fmt) (initial_state, []) evs"

text \<open>At most one run is in flight, and \<open>isProcessing\<close> says whether one is.\<close>

definition run_invariant :: "ExtractionState \<times> run_phase list \<Rightarrow> bool" where
  "run_invariant sys \<longleftrightarrow> length (snd sys) \<le> 1 \<and> (isProcessing (fst sys) \<longleftrightarrow> snd sys \<noteq> [])"


text \<open>
  The engine is marked as loaded exactly when the library is there, and a run in
  flight has the library.
\<close>

definition engine_invariant :: "ExtractionState \<times> run_phase list \<Rightarrow> bool" where
  "engine_invariant sys \<longleftrightarrow>
     (engineLoaded (fst sys) \<longleftrightarrow> tf (fst sys) \<noteq> None) \<and>
     (snd sys \<noteq> [] \<longrightarrow> engineLoaded (fst sys))"

section \<open>The example of the specification\<close>

text \<open>
  Two channels, two seconds at 44100 Hz, both channels constant 0.5; and the buffer
  of the same shape with both channels constant at a given value.
\<close>

definition example_input :: AudioBuffer where
  "example_input =
     \<lparr>length_ab = 88200, sampleRate = 44100, numberOfChannels = 2,
      channelData = [replicate 88200 (1 / 2), replicate 88200 (1 / 2)]\<rparr>"

definition example_output :: "real \<Rightarrow> AudioBuffer" where
  "example_output c =
     \<lparr>length_ab = 88200, sampleRate = 44100, numberOfChannels = 2,
      channelData = [replicate 88200 c, replicate 88200 c]\<rparr>"

text \<open>
  A mono input of 1280 samples, all 1: the full window that starts at 256 ends
  exactly at the end of the input. And the zero-filled buffer of its shape.
\<close>

definition exact_fit_input :: AudioBuffer where
  "exact_fit_input =
     \<lparr>length_ab = 1280, sampleRate = 44100, numberOfChannels = 1,
      channelData = [replicate 1280 1]\<rparr>"

definition exact_fit_silence :: AudioBuffer where
  "exact_fit_silence =
     \<lparr>length_ab = 1280, sampleRate = 44100, numberOfChannels = 1,
      channelData = [replicate 1280 0]\<rparr>"

section \<open>Properties of the stereo branch\<close>

lemma first_pass_spec:
  "length c = len \<Longrightarrow> length sl = len \<Longrightarrow> length sr = len \<Longrightarrow>
   first_pass l r len i (c, sl, sr) = (c', sl', sr') \<Longrightarrow>
   length c' = len \<and> length sl' = len \<and> length sr' = len \<and>
   (\<forall>k<len. c' ! k = (if i \<le> k then (l ! k + r ! k) / 2 else c ! k) \<and>
            sl' ! k = (if i \<le> k then l ! k - (l ! k + r ! k) / 2 else sl ! k) \<and>
            sr' ! k = (if i \<le> k then r ! k - (l ! k + r ! k) / 2 else sr ! k))"
proof (induction l r len i "(c, sl, sr)" arbitrary: c sl sr rule: first_pass.induct)
  case (1 l r len i c sl sr)
  show ?case
  proof (cases "i < len")
    case False
    with "1.prems" show ?thesis by (auto simp: first_pass.simps second_pass.simps)
  next
    case True
    let ?c = "c[i := (l ! i + r ! i) / 2]"
    let ?sl = "sl[i := l ! i - ?c ! i]"
    let ?sr = "sr[i := r ! i - ?c ! i]"
    have step: "first_pass l r len (Suc i) (?c, ?sl, ?sr) = (c', sl', sr')"
      using "1.prems"(4) True by (simp add: first_pass.simps Let_def)
    have IH: "length c' = len \<and> length sl' = len \<and> length sr' = len \<and>
      (\<forall>k<len. c' ! k = (if Suc i \<le> k then (l ! k + r ! k) / 2 else ?c ! k) \<and>
            sl' ! k = (if Suc i \<le> k then l ! k - (l ! k + r ! k) / 2 else ?sl ! k) \<and>
            sr' ! k = (if Suc i \<le> k then r ! k - (l ! k + r ! k) / 2 else ?sr ! k))"
      using "1.hyps"[OF True refl refl refl refl refl _ _ _ step] "1.prems"(1-3) by simp
    show ?thesis
    proof (intro conjI allI impI)
      fix k assume k: "k < len"
      from IH k "1.prems"(1-3) True
      show "c' ! k = (if i \<le> k then (l ! k + r ! k) / 2 else c ! k)"
        by (cases "k = i") (auto simp: nth_list_update)
      from IH k "1.prems"(1-3) True
      show "sl' ! k = (if i \<le> k then l ! k - (l ! k + r ! k) / 2 else sl ! k)"
        by (cases "k = i") (auto simp: nth_list_update)
      from IH k "1.prems"(1-3) True
      show "sr' ! k = (if i \<le> k then r ! k - (l ! k + r ! k) / 2 else sr ! k)"
        by (cases "k = i") (auto simp: nth_list_update)
    qed (use IH in simp_all)
  qed
qed


lemma second_pass_spec:
  "length vl = len \<Longrightarrow> length vr = len \<Longrightarrow> length al = len \<Longrightarrow> length ar = len \<Longrightarrow>
   0 < i \<Longrightarrow>
   second_pass c sl sr len i (vl, vr, al, ar) = (vl', vr', al', ar') \<Longrightarrow>
   length vl' = len \<and> length vr' = len \<and> length al' = len \<and> length ar' = len \<and>
   (\<forall>k<len. k < i \<longrightarrow> vl' ! k = vl ! k \<and> vr' ! k = vr ! k \<and> al' ! k = al ! k \<and> ar' ! k = ar ! k) \<and>
   (\<forall>k<len. i \<le> k \<longrightarrow>
       vl' ! k = vl' ! (k - 1) * 0.7 + c ! k * 0.3 \<and>
       vr' ! k = vr' ! (k - 1) * 0.7 + c ! k * 0.3 \<and>
       al' ! k = al' ! (k - 1) * 0.7 + sl ! k * 0.3 \<and>
       ar' ! k = ar' ! (k - 1) * 0.7 + sr ! k * 0.3)"
proof (induction c sl sr len i "(vl, vr, al, ar)" arbitrary: vl vr al ar rule: second_pass.induct)
  case (1 c sl sr len i vl vr al ar)
  show ?case
  proof (cases "i < len")
    case False
    with "1.prems" show ?thesis by (auto simp: first_pass.simps second_pass.simps)
  next
    case True
    let ?vl = "vl[i := vl ! (i - 1) * (1 - smoothingFactor) + c ! i * smoothingFactor]"
    let ?vr = "vr[i := vr ! (i - 1) * (1 - smoothingFactor) + c ! i * smoothingFactor]"
    let ?al = "al[i := al ! (i - 1) * (1 - smoothingFactor) + sl ! i * smoothingFactor]"
    let ?ar = "ar[i := ar ! (i - 1) * (1 - smoothingFactor) + sr ! i * smoothingFactor]"
    have step: "second_pass c sl sr len (Suc i) (?vl, ?vr, ?al, ?ar) = (vl', vr', al', ar')"
      using "1.prems"(6) True by (simp add: second_pass.simps)
    have IH: "length vl' = len \<and> length vr' = len \<and> length al' = len \<and> length ar' = len \<and>
      (\<forall>k<len. k < Suc i \<longrightarrow> vl' ! k = ?vl ! k \<and> vr' ! k = ?vr ! k \<and> al' ! k = ?al ! k \<and> ar' ! k = ?ar ! k) \<and>
      (\<forall>k<len. Suc i \<le> k \<longrightarrow>
       vl' ! k = vl' ! (k - 1) * 0.7 + c ! k * 0.3 \<and>
       vr' ! k = vr' ! (k - 1) * 0.7 + c ! k * 0.3 \<and>
       al' ! k = al' ! (k - 1) * 0.7 + sl ! k * 0.3 \<and>
       ar' ! k = ar' ! (k - 1) * 0.7 + sr ! k * 0.3)"
      using "1.hyps"[OF True _ _ _ _ _ step] "1.prems"(1-4) by simp
    have old: "\<forall>k<len. k < i \<longrightarrow> vl' ! k = vl ! k \<and> vr' ! k = vr ! k \<and> al' ! k = al ! k \<and> ar' ! k = ar ! k"
      using IH by (auto simp: nth_list_update)
    have at_i: "vl' ! i = vl ! (i - 1) * 0.7 + c ! i * 0.3 \<and>
       vr' ! i = vr ! (i - 1) * 0.7 + c ! i * 0.3 \<and>
       al' ! i = al ! (i - 1) * 0.7 + sl ! i * 0.3 \<and>
       ar' ! i = ar ! (i - 1) * 0.7 + sr ! i * 0.3"
      using IH True "1.prems"(1-4) by (simp add: smoothingFactor_def)
    have prev: "vl' ! (i - 1) = vl ! (i - 1) \<and> vr' ! (i - 1) = vr ! (i - 1) \<and>
       al' ! (i - 1) = al ! (i - 1) \<and> ar' ! (i - 1) = ar ! (i - 1)"
      using old True "1.prems"(5) by simp
    have new: "\<forall>k<len. i \<le> k \<longrightarrow>
       vl' ! k = vl' ! (k - 1) * 0.7 + c ! k * 0.3 \<and>
       vr' ! k = vr' ! (k - 1) * 0.7 + c ! k * 0.3 \<and>
       al' ! k = al' ! (k - 1) * 0.7 + sl ! k * 0.3 \<and>
       ar' ! k = ar' ! (k - 1) * 0.7 + sr ! k * 0.3"
    proof (intro allI impI)
      fix k assume k: "k < len" "i \<le> k"
      show "vl' ! k = vl' ! (k - 1) * 0.7 + c ! k * 0.3 \<and>
       vr' ! k = vr' ! (k - 1) * 0.7 + c ! k * 0.3 \<and>
       al' ! k = al' ! (k - 1) * 0.7 + sl ! k * 0.3 \<and>
       ar' ! k = ar' ! (k - 1) * 0.7 + sr ! k * 0.3"
      proof (cases "k = i")
        case True
        with at_i prev show ?thesis by simp
      next
        case False
        with k have "Suc i \<le> k" by simp
        with IH k show ?thesis by blast
      qed
    qed
    from IH old new show ?thesis by blast
  qed
qed


lemma createBuffer_channels:
  "createBuffer n len rate = Inr vb \<Longrightarrow> c < n \<Longrightarrow> getChannelData vb c = replicate len 0"
  by (auto simp: createBuffer_def getChannelData_def split: if_splits)

lemma smoothed_of_recurrence:
  "y 0 = x 0 \<Longrightarrow> (\<forall>k<len. 1 \<le> k \<longrightarrow> y k = y (k - 1) * 0.7 + x k * 0.3) \<Longrightarrow>
   i < len \<Longrightarrow> y i = smoothed x i"
  by (induction i) auto

lemma stereo_stems_spec:
  assumes wf: "wf_buffer b" and n: "2 \<le> numberOfChannels b" and L: "1 \<le> length_ab b"
    and vb: "createBuffer (numberOfChannels b) (length_ab b) (sampleRate b) = Inr vb"
    and ab: "createBuffer (numberOfChannels b) (length_ab b) (sampleRate b) = Inr ab"
    and i: "i < length_ab b"
  shows "case stereo_stems b vb ab of (vl, vr, al, ar) \<Rightarrow>
         length vl = length_ab b \<and> length vr = length_ab b \<and>
         length al = length_ab b \<and> length ar = length_ab b \<and>
         vl ! i = smoothed (center b) i \<and> vr ! i = smoothed (center b) i \<and>
         al ! i = smoothed (sideLeft b) i \<and> ar ! i = smoothed (sideRight b) i"
proof -
  obtain vl vr al ar where st: "stereo_stems b vb ab = (vl, vr, al, ar)"
    by (metis prod_cases4)
  let ?len = "length_ab b"
  let ?l = "getChannelData b 0" and ?r = "getChannelData b 1"
  let ?z = "replicate ?len (0::real)"
  obtain c sl sr where fp: "first_pass ?l ?r ?len 0 (?z, ?z, ?z) = (c, sl, sr)"
    by (metis prod_cases3)
  have fps: "length c = ?len \<and> length sl = ?len \<and> length sr = ?len \<and>
    (\<forall>k<?len. c ! k = center b k \<and> sl ! k = sideLeft b k \<and> sr ! k = sideRight b k)"
    using first_pass_spec[OF _ _ _ fp] by (simp add: center_def sideLeft_def sideRight_def)
  have ch: "getChannelData vb 0 = ?z" "getChannelData vb 1 = ?z"
           "getChannelData ab 0 = ?z" "getChannelData ab 1 = ?z"
    using createBuffer_channels[OF vb] createBuffer_channels[OF ab] n by simp_all
  have sp: "second_pass c sl sr ?len 1 (?z[0 := c ! 0], ?z[0 := c ! 0], ?z[0 := sl ! 0], ?z[0 := sr ! 0])
              = (vl, vr, al, ar)"
    using st fp ch by (simp add: stereo_stems_def stereo_separate_def)
  have sps: "length vl = ?len \<and> length vr = ?len \<and> length al = ?len \<and> length ar = ?len \<and>
   (\<forall>k<?len. k < 1 \<longrightarrow> vl ! k = ?z[0 := c ! 0] ! k \<and> vr ! k = ?z[0 := c ! 0] ! k \<and>
        al ! k = ?z[0 := sl ! 0] ! k \<and> ar ! k = ?z[0 := sr ! 0] ! k) \<and>
   (\<forall>k<?len. 1 \<le> k \<longrightarrow>
       vl ! k = vl ! (k - 1) * 0.7 + c ! k * 0.3 \<and>
       vr ! k = vr ! (k - 1) * 0.7 + c ! k * 0.3 \<and>
       al ! k = al ! (k - 1) * 0.7 + sl ! k * 0.3 \<and>
       ar ! k = ar ! (k - 1) * 0.7 + sr ! k * 0.3)"
    using second_pass_spec[OF _ _ _ _ _ sp] by simp
  have z: "vl ! 0 = center b 0" "vr ! 0 = center b 0" "al ! 0 = sideLeft b 0" "ar ! 0 = sideRight b 0"
    using sps fps L by auto
  have rec: "\<forall>k<?len. 1 \<le> k \<longrightarrow> vl ! k = vl ! (k - 1) * 0.7 + center b k * 0.3"
     "\<forall>k<?len. 1 \<le> k \<longrightarrow> vr ! k = vr ! (k - 1) * 0.7 + center b k * 0.3"
     "\<forall>k<?len. 1 \<le> k \<longrightarrow> al ! k = al ! (k - 1) * 0.7 + sideLeft b k * 0.3"
     "\<forall>k<?len. 1 \<le> k \<longrightarrow> ar ! k = ar ! (k - 1) * 0.7 + sideRight b k * 0.3"
    using sps fps by auto
  have "vl ! i = smoothed (center b) i"
    using smoothed_of_recurrence[of "\<lambda>k. vl ! k" "center b" ?len i] z rec i by simp
  moreover have "vr ! i = smoothed (center b) i"
    using smoothed_of_recurrence[of "\<lambda>k. vr ! k" "center b" ?len i] z rec i by simp
  moreover have "al ! i = smoothed (sideLeft b) i"
    using smoothed_of_recurrence[of "\<lambda>k. al ! k" "sideLeft b" ?len i] z rec i by simp
  moreover have "ar ! i = smoothed (sideRight b) i"
    using smoothed_of_recurrence[of "\<lambda>k. ar ! k" "sideRight b" ?len i] z rec i by simp
  ultimately show ?thesis using sps st by simp
qed


section \<open>Properties of the normalization\<close>

lemma peak_ge0: "0 \<le> peak xs"
  by (simp add: peak_def)

lemma peak_le_iff: "peak xs \<le> m \<longleftrightarrow> 0 \<le> m \<and> (\<forall>x\<in>set xs. \<bar>x\<bar> \<le> m)"
  by (simp add: peak_def)

lemma peak_Cons: "peak (x # xs) = max \<bar>x\<bar> (peak xs)"
proof -
  have h: "peak (x # xs) \<le> m \<longleftrightarrow> max \<bar>x\<bar> (peak xs) \<le> m" for m
    by (auto simp: peak_le_iff)
  from h[of "peak (x # xs)"] have "max \<bar>x\<bar> (peak xs) \<le> peak (x # xs)" by simp
  moreover from h[of "max \<bar>x\<bar> (peak xs)"] have "peak (x # xs) \<le> max \<bar>x\<bar> (peak xs)" by simp
  ultimately show ?thesis by (rule order_antisym[rotated])
qed

lemma max_loop_spec:
  "length v = len \<Longrightarrow> length a = len \<Longrightarrow> 0 \<le> mv \<Longrightarrow> 0 \<le> ma \<Longrightarrow>
   max_loop v a len i (mv, ma) = (max mv (peak (drop i v)), max ma (peak (drop i a)))"
proof (induction v a len i "(mv, ma)" arbitrary: mv ma rule: max_loop.induct)
  case (1 v a len i mv ma)
  show ?case
  proof (cases "i < len")
    case False
    with "1.prems" show ?thesis
      by (simp add: max_loop.simps peak_def)
  next
    case True
    let ?mv = "if \<bar>v ! i\<bar> > mv then \<bar>v ! i\<bar> else mv"
    let ?ma = "if \<bar>a ! i\<bar> > ma then \<bar>a ! i\<bar> else ma"
    have IH: "max_loop v a len (Suc i) (?mv, ?ma)
        = (max ?mv (peak (drop (Suc i) v)), max ?ma (peak (drop (Suc i) a)))"
      using "1.hyps"[OF True refl refl "1.prems"(1,2)] "1.prems"(3,4) by simp
    have dv: "drop i v = v ! i # drop (Suc i) v" and da: "drop i a = a ! i # drop (Suc i) a"
      using True "1.prems"(1,2) by (simp_all add: Cons_nth_drop_Suc)
    have "max_loop v a len i (mv, ma) = max_loop v a len (Suc i) (?mv, ?ma)"
      using True by (simp add: max_loop.simps Let_def)
    also have "\<dots> = (max mv (peak (drop i v)), max ma (peak (drop i a)))"
      unfolding IH dv da peak_Cons by (auto simp: max_def)
    finally show ?thesis .
  qed
qed

lemma max_loop_peak:
  "length v = len \<Longrightarrow> length a = len \<Longrightarrow> max_loop v a len 0 (0, 0) = (peak v, peak a)"
  using max_loop_spec[of v len a 0 0 0] peak_ge0[of v] peak_ge0[of a] by (simp add: max_def)

lemma gain_loop_spec:
  "length d = len \<Longrightarrow> i \<le> len \<Longrightarrow>
   gain_loop g len i d = take i d @ map (\<lambda>x. x * g) (drop i d)"
proof (induction g len i d rule: gain_loop.induct)
  case (1 g len i d)
  show ?case
  proof (cases "i < len")
    case False
    with "1.prems" show ?thesis by (simp add: gain_loop.simps)
  next
    case True
    have "gain_loop g len i d = gain_loop g len (Suc i) (d[i := d ! i * g])"
      using True by (simp add: gain_loop.simps)
    also have "\<dots> = take (Suc i) (d[i := d ! i * g]) @ map (\<lambda>x. x * g) (drop (Suc i) (d[i := d ! i * g]))"
      using "1.IH"[OF True] "1.prems" True by simp
    also have "\<dots> = take i d @ map (\<lambda>x. x * g) (drop i d)"
      using True "1.prems"
      by (simp add: take_Suc_conv_app_nth Cons_nth_drop_Suc[symmetric])
    finally show ?thesis .
  qed
qed

lemma normalize_channel_spec:
  "length v = len \<Longrightarrow> length a = len \<Longrightarrow>
   normalize_channel len (v, a) = (normalized v, normalized a)"
  by (simp add: normalize_channel_def max_loop_peak gain_loop_spec normalized_def)

lemma normalize_loop_spec:
  "length vb = n \<Longrightarrow> length ab = n \<Longrightarrow>
   list_all (\<lambda>ch. length ch = len) vb \<Longrightarrow> list_all (\<lambda>ch. length ch = len) ab \<Longrightarrow>
   c \<le> n \<Longrightarrow>
   normalize_loop n len c (vb, ab)
     = (take c vb @ map normalized (drop c vb), take c ab @ map normalized (drop c ab))"
proof (induction n len c "(vb, ab)" arbitrary: vb ab rule: normalize_loop.induct)
  case (1 n len c vb ab)
  show ?case
  proof (cases "c < n")
    case False
    with "1.prems" show ?thesis by (simp add: normalize_loop.simps)
  next
    case True
    have lv: "length (vb ! c) = len" and la: "length (ab ! c) = len"
      using True "1.prems" by (simp_all add: list_all_length)
    let ?vb = "vb[c := normalized (vb ! c)]" and ?ab = "ab[c := normalized (ab ! c)]"
    have nl: "length (normalized xs) = length xs" for xs
      by (simp add: normalized_def)
    have allv: "list_all (\<lambda>ch. length ch = len) ?vb" and alla: "list_all (\<lambda>ch. length ch = len) ?ab"
      using "1.prems"(1-4) True lv la by (auto simp: list_all_length nth_list_update nl)
    have "normalize_loop n len c (vb, ab) = normalize_loop n len (Suc c) (?vb, ?ab)"
      using True by (simp add: normalize_loop.simps normalize_channel_spec[OF lv la])
    also have "\<dots> = (take (Suc c) ?vb @ map normalized (drop (Suc c) ?vb),
                     take (Suc c) ?ab @ map normalized (drop (Suc c) ?ab))"
      using "1.hyps"[OF True normalize_channel_spec[OF lv la, symmetric] _ _ allv alla] "1.prems" True
      by simp
    also have "\<dots> = (take c vb @ map normalized (drop c vb), take c ab @ map normalized (drop c ab))"
      using True "1.prems"
      by (simp add: take_Suc_conv_app_nth Cons_nth_drop_Suc[symmetric])
    finally show ?thesis .
  qed
qed

lemma peak_nonempty: "xs \<noteq> [] \<Longrightarrow> peak xs = Max ((\<lambda>x. \<bar>x\<bar>) ` set xs)"
proof -
  assume ne: "xs \<noteq> []"
  then obtain y where y: "y \<in> set xs" by (cases xs) auto
  have "Max ((\<lambda>x. \<bar>x\<bar>) ` set xs) \<ge> \<bar>y\<bar>" using y by simp
  then have "0 \<le> Max ((\<lambda>x. \<bar>x\<bar>) ` set xs)" by linarith
  then show ?thesis using ne by (simp add: peak_def max_def)
qed

lemma peak_zero_iff: "peak xs = 0 \<longleftrightarrow> (\<forall>x\<in>set xs. x = 0)"
proof -
  have "peak xs \<le> 0 \<longleftrightarrow> (\<forall>x\<in>set xs. x = 0)" by (simp add: peak_le_iff)
  then show ?thesis using peak_ge0[of xs] by linarith
qed

lemma length_normalized: "length (normalized xs) = length xs"
  by (simp add: normalized_def)

lemma normalized_low_peak: "peak xs \<le> 0.9 \<Longrightarrow> normalized xs = xs"
proof -
  assume le: "peak xs \<le> 0.9"
  show ?thesis
  proof (cases "peak xs > 0")
    case True
    with le have "1 \<le> 0.9 / peak xs" by (simp add: field_simps)
    then have "min 1 (0.9 / peak xs) = 1" by simp
    then show ?thesis by (simp add: normalized_def)
  next
    case False
    then show ?thesis by (simp add: normalized_def)
  qed
qed

lemma peak_normalized: "peak (normalized xs) \<le> 0.9"
proof (cases "peak xs > 0")
  case False
  then have "peak xs = 0" using peak_ge0[of xs] by linarith
  then show ?thesis by (simp add: normalized_def)
next
  case True
  let ?g = "min 1 (0.9 / peak xs)"
  have g0: "0 \<le> ?g" using True by simp
  have "\<bar>x * ?g\<bar> \<le> 0.9" if x: "x \<in> set xs" for x
  proof -
    have "\<bar>x\<bar> \<le> peak xs" using x peak_le_iff[of xs "peak xs"] by simp
    then have "\<bar>x\<bar> * ?g \<le> peak xs * ?g" using g0 by (rule mult_right_mono)
    also have "\<dots> \<le> peak xs * (0.9 / peak xs)"
      using True by (intro mult_left_mono) simp_all
    also have "\<dots> = 0.9" using True by simp
    finally show ?thesis using g0 by (simp add: abs_mult)
  qed
  then have "peak (map (\<lambda>x. x * ?g) xs) \<le> 0.9"
    by (subst peak_le_iff) auto
  moreover have "normalized xs = map (\<lambda>x. x * ?g) xs"
    by (simp only: normalized_def True if_True)
  ultimately show ?thesis by (simp only:)
qed

lemma normalized_idem: "normalized (normalized xs) = normalized xs"
  by (rule normalized_low_peak) (rule peak_normalized)

lemma normalize_loop_map:
  assumes "length vb = n" "length ab = n"
    "list_all (\<lambda>ch. length ch = len) vb" "list_all (\<lambda>ch. length ch = len) ab"
  shows "normalize_loop n len 0 (vb, ab) = (map normalized vb, map normalized ab)"
  using normalize_loop_spec[OF assms, of 0] by simp


lemma normalized_law:
  "(peak x > 0 \<longrightarrow>
      normalized x = map (\<lambda>s. s * min 1 (0.9 / peak x)) x \<and> peak (normalized x) \<le> 0.9) \<and>
   (peak x \<le> 0.9 \<longrightarrow> normalized x = x) \<and>
   (0 < peak x \<and> peak x \<le> 0.9 \<longrightarrow> min 1 (0.9 / peak x) = 1) \<and>
   ((\<forall>s\<in>set x. s = 0) \<longrightarrow> normalized x = x)"
proof -
  have 3: "peak x > 0 \<longrightarrow> normalized x = map (\<lambda>s. s * min 1 (0.9 / peak x)) x \<and> peak (normalized x) \<le> 0.9"
  proof
    assume p: "peak x > 0"
    have e: "normalized x = map (\<lambda>s. s * min 1 (0.9 / peak x)) x"
      by (simp only: normalized_def p if_True)
    show "normalized x = map (\<lambda>s. s * min 1 (0.9 / peak x)) x \<and> peak (normalized x) \<le> 0.9"
      by (intro conjI e peak_normalized)
  qed
  have 4: "peak x \<le> 0.9 \<longrightarrow> normalized x = x"
    by (simp add: normalized_low_peak)
  have 6: "0 < peak x \<and> peak x \<le> 0.9 \<longrightarrow> min 1 (0.9 / peak x) = 1"
  proof
    assume "0 < peak x \<and> peak x \<le> 0.9"
    then have "1 \<le> 0.9 / peak x" by (simp add: field_simps)
    then show "min 1 (0.9 / peak x) = 1" by simp
  qed
  have 5: "(\<forall>s\<in>set x. s = 0) \<longrightarrow> normalized x = x"
  proof
    assume "\<forall>s\<in>set x. s = 0"
    then have "peak x = 0" by (simp only: peak_zero_iff)
    then show "normalized x = x" by (simp add: normalized_def)
  qed
  show ?thesis using 3 4 5 6 by blast
qed

section \<open>Properties of the mono branch\<close>

lemma windowSize_pos: "0 < windowSize" by (simp add: windowSize_def)
lemma hopSize_pos: "0 < hopSize" by (simp add: hopSize_def windowSize_def)

lemma weight_loop_spec:
  "length vw = windowSize \<Longrightarrow> length aw = windowSize \<Longrightarrow>
   weight_loop window i (vw, aw) = (vw', aw') \<Longrightarrow>
   length vw' = windowSize \<and> length aw' = windowSize \<and>
   (\<forall>j<windowSize. vw' ! j = (if i \<le> j then window ! j * vocalWeight j else vw ! j) \<and>
                    aw' ! j = (if i \<le> j then window ! j * accompanimentWeight j else aw ! j))"
proof (induction window i "(vw, aw)" arbitrary: vw aw rule: weight_loop.induct)
  case (1 window i vw aw)
  show ?case
  proof (cases "i < windowSize")
    case False
    with "1.prems" show ?thesis by (auto simp: weight_loop.simps)
  next
    case True
    let ?vw = "vw[i := window ! i * min 1 (real i / real windowSize * 3)]"
    let ?aw = "aw[i := window ! i * min 1 ((1 - real i / real windowSize) * 2)]"
    have step: "weight_loop window (Suc i) (?vw, ?aw) = (vw', aw')"
      using "1.prems"(3) True
      by (simp add: weight_loop.simps[of window i] Let_def)
    have IH: "length vw' = windowSize \<and> length aw' = windowSize \<and>
       (\<forall>j<windowSize. vw' ! j = (if Suc i \<le> j then window ! j * vocalWeight j else ?vw ! j) \<and>
                    aw' ! j = (if Suc i \<le> j then window ! j * accompanimentWeight j else ?aw ! j))"
      using "1.hyps"[OF True refl refl refl refl _ _ step] "1.prems"(1,2)
      by simp
    show ?thesis
    proof (intro conjI allI impI)
      fix j assume j: "j < windowSize"
      from IH j "1.prems"(1,2) True
      show "vw' ! j = (if i \<le> j then window ! j * vocalWeight j else vw ! j)"
        by (cases "j = i") (auto simp: nth_list_update vocalWeight_def)
      from IH j "1.prems"(1,2) True
      show "aw' ! j = (if i \<le> j then window ! j * accompanimentWeight j else aw ! j)"
        by (cases "j = i") (auto simp: nth_list_update accompanimentWeight_def)
    qed (use IH in simp_all)
  qed
qed

lemma copy_loop_spec:
  "length vd = len \<Longrightarrow> length ad = len \<Longrightarrow>
   copy_loop start len vw aw i (vd, ad) = (vd', ad') \<Longrightarrow>
   length vd' = len \<and> length ad' = len \<and>
   (\<forall>k<len. vd' ! k = vd ! k + (if start + i \<le> k \<and> k < start + windowSize then vw ! (k - start) else 0) \<and>
            ad' ! k = ad ! k + (if start + i \<le> k \<and> k < start + windowSize then aw ! (k - start) else 0))"
proof (induction start len vw aw i "(vd, ad)" arbitrary: vd ad rule: copy_loop.induct)
  case (1 start len vw aw i vd ad)
  show ?case
  proof (cases "i < windowSize \<and> start + i < len")
    case False
    with "1.prems" show ?thesis by (auto simp: copy_loop.simps)
  next
    case True
    let ?vd = "vd[start + i := vd ! (start + i) + vw ! i]"
    let ?ad = "ad[start + i := ad ! (start + i) + aw ! i]"
    have step: "copy_loop start len vw aw (Suc i) (?vd, ?ad) = (vd', ad')"
      using "1.prems"(3) True by (simp add: copy_loop.simps[of start len vw aw i])
    have IH: "length vd' = len \<and> length ad' = len \<and>
      (\<forall>k<len. vd' ! k = ?vd ! k + (if start + Suc i \<le> k \<and> k < start + windowSize then vw ! (k - start) else 0) \<and>
            ad' ! k = ?ad ! k + (if start + Suc i \<le> k \<and> k < start + windowSize then aw ! (k - start) else 0))"
      using "1.hyps"[OF True _ _ step] "1.prems"(1,2) by simp
    show ?thesis
    proof (intro conjI allI impI)
      fix k assume k: "k < len"
      from IH k "1.prems"(1,2) True
      show "vd' ! k = vd ! k + (if start + i \<le> k \<and> k < start + windowSize then vw ! (k - start) else 0)"
        by (cases "k = start + i") (auto simp: nth_list_update)
      from IH k "1.prems"(1,2) True
      show "ad' ! k = ad ! k + (if start + i \<le> k \<and> k < start + windowSize then aw ! (k - start) else 0)"
        by (cases "k = start + i") (auto simp: nth_list_update)
    qed (use IH in simp_all)
  qed
qed

lemma window_step:
  assumes len: "length inp = len" "length vd = len" "length ad = len"
    and fits: "start + windowSize < len"
    and w: "weight_loop (take windowSize (drop start inp)) 0
              (replicate windowSize 0, replicate windowSize 0) = (vw, aw)"
    and c: "copy_loop start len vw aw 0 (vd, ad) = (vd', ad')"
  shows "length vd' = len \<and> length ad' = len \<and>
         (\<forall>k<len. vd' ! k = vd ! k + contribution vocalWeight inp start k \<and>
                  ad' ! k = ad ! k + contribution accompanimentWeight inp start k)"
proof -
  let ?window = "take windowSize (drop start inp)"
  have win: "?window ! j = inp ! (start + j)" if "j < windowSize" for j
    using that len(1) fits by simp
  have ws: "\<forall>j<windowSize. vw ! j = inp ! (start + j) * vocalWeight j \<and>
                          aw ! j = inp ! (start + j) * accompanimentWeight j"
    using weight_loop_spec[OF _ _ w] win by simp
  have cs: "length vd' = len \<and> length ad' = len \<and>
   (\<forall>k<len. vd' ! k = vd ! k + (if start + 0 \<le> k \<and> k < start + windowSize then vw ! (k - start) else 0) \<and>
            ad' ! k = ad ! k + (if start + 0 \<le> k \<and> k < start + windowSize then aw ! (k - start) else 0))"
    by (rule copy_loop_spec[OF len(2,3) c])
  show ?thesis
  proof (intro conjI allI impI)
    fix k assume k: "k < len"
    show "vd' ! k = vd ! k + contribution vocalWeight inp start k"
    proof (cases "start \<le> k \<and> k < start + windowSize")
      case True
      then have "k - start < windowSize" "start + (k - start) = k" by auto
      with ws have "vw ! (k - start) = inp ! k * vocalWeight (k - start)" by metis
      with cs k True show ?thesis by (simp add: contribution_def)
    next
      case False
      with cs k show ?thesis by (auto simp: contribution_def)
    qed
    show "ad' ! k = ad ! k + contribution accompanimentWeight inp start k"
    proof (cases "start \<le> k \<and> k < start + windowSize")
      case True
      then have "k - start < windowSize" "start + (k - start) = k" by auto
      with ws have "aw ! (k - start) = inp ! k * accompanimentWeight (k - start)" by metis
      with cs k True show ?thesis by (simp add: contribution_def)
    next
      case False
      with cs k show ?thesis by (auto simp: contribution_def)
    qed
  qed (use cs in simp_all)
qed

lemma mono_loop_spec:
  "length inp = len \<Longrightarrow> length vd = len \<Longrightarrow> length ad = len \<Longrightarrow>
   mono_loop inp len start (vd, ad) = (vd', ad') \<Longrightarrow>
   length vd' = len \<and> length ad' = len \<and>
   (\<forall>k<len. vd' ! k = vd ! k + (\<Sum>s\<leftarrow>starts_from len start. contribution vocalWeight inp s k) \<and>
            ad' ! k = ad ! k + (\<Sum>s\<leftarrow>starts_from len start. contribution accompanimentWeight inp s k))"
proof (induction inp len start "(vd, ad)" arbitrary: vd ad rule: mono_loop.induct)
  case (1 inp len start vd ad)
  show ?case
  proof (cases "int start < int len - int windowSize")
    case False
    with "1.prems" show ?thesis
      by (auto simp: mono_loop.simps[of inp len start] starts_from.simps[of len start])
  next
    case True
    then have fits: "start + windowSize < len" by linarith
    obtain vw aw where w: "weight_loop (take windowSize (drop start inp)) 0
              (replicate windowSize 0, replicate windowSize 0) = (vw, aw)"
      by (metis surj_pair)
    obtain vd1 ad1 where c: "copy_loop start len vw aw 0 (vd, ad) = (vd1, ad1)"
      by (metis surj_pair)
    have ws: "length vd1 = len \<and> length ad1 = len \<and>
         (\<forall>k<len. vd1 ! k = vd ! k + contribution vocalWeight inp start k \<and>
                  ad1 ! k = ad ! k + contribution accompanimentWeight inp start k)"
      by (rule window_step[OF "1.prems"(1-3) fits w c])
    have step: "mono_loop inp len (start + hopSize) (vd1, ad1) = (vd', ad')"
      using "1.prems"(4) True w c by (simp add: mono_loop.simps[of inp len start])
    have IH: "length vd' = len \<and> length ad' = len \<and>
      (\<forall>k<len. vd' ! k = vd1 ! k + (\<Sum>s\<leftarrow>starts_from len (start + hopSize). contribution vocalWeight inp s k) \<and>
            ad' ! k = ad1 ! k + (\<Sum>s\<leftarrow>starts_from len (start + hopSize). contribution accompanimentWeight inp s k))"
      using "1.hyps"[OF True refl w[symmetric] c "1.prems"(1) _ _ step] ws by simp
    have sf: "starts_from len start = start # starts_from len (start + hopSize)"
      using True by (simp add: starts_from.simps[of len start])
    show ?thesis using IH ws unfolding sf by simp
  qed
qed

lemma starts_from_ge: "s \<in> set (starts_from len start) \<Longrightarrow> start \<le> s"
proof (induction len start rule: starts_from.induct)
  case (1 len start)
  show ?case
  proof (cases "int start < int len - int windowSize")
    case True
    with "1.prems" have "s = start \<or> s \<in> set (starts_from len (start + hopSize))"
      by (simp add: starts_from.simps[of len start])
    with "1.IH"[OF True] show ?thesis by auto
  next
    case False
    with "1.prems" show ?thesis by (simp add: starts_from.simps[of len start])
  qed
qed

lemma distinct_starts_from: "distinct (starts_from len start)"
proof (induction len start rule: starts_from.induct)
  case (1 len start)
  show ?case
  proof (cases "int start < int len - int windowSize")
    case True
    have "start \<notin> set (starts_from len (start + hopSize))"
      using starts_from_ge[of start len "start + hopSize"] hopSize_pos by auto
    with "1.IH"[OF True] True show ?thesis
      by (simp add: starts_from.simps[of len start])
  next
    case False
    then show ?thesis by (simp add: starts_from.simps[of len start])
  qed
qed

lemma next_multiple:
  "hopSize dvd start \<Longrightarrow> hopSize dvd s \<Longrightarrow> start < s \<Longrightarrow> start + hopSize \<le> s"
proof -
  assume a: "hopSize dvd start" "hopSize dvd s" "start < s"
  then have "hopSize dvd s - start" by (simp add: dvd_diff_nat)
  moreover have "0 < s - start" using a by simp
  ultimately have "hopSize \<le> s - start" by (rule dvd_imp_le)
  then show ?thesis using a by linarith
qed

lemma set_starts_from:
  "hopSize dvd start \<Longrightarrow>
   set (starts_from len start) = {s. start \<le> s \<and> hopSize dvd s \<and> s + windowSize < len}"
proof (induction len start rule: starts_from.induct)
  case (1 len start)
  show ?case
  proof (cases "int start < int len - int windowSize")
    case True
    have IH: "set (starts_from len (start + hopSize))
        = {s. start + hopSize \<le> s \<and> hopSize dvd s \<and> s + windowSize < len}"
      using "1.IH"[OF True] "1.prems" by simp
    have "set (starts_from len start) = insert start (set (starts_from len (start + hopSize)))"
      using True by (simp add: starts_from.simps[of len start])
    also have "\<dots> = {s. start \<le> s \<and> hopSize dvd s \<and> s + windowSize < len}"
    proof (intro set_eqI iffI)
      fix s assume "s \<in> insert start (set (starts_from len (start + hopSize)))"
      then consider "s = start" | "s \<in> set (starts_from len (start + hopSize))" by blast
      then show "s \<in> {s. start \<le> s \<and> hopSize dvd s \<and> s + windowSize < len}"
      proof cases
        case 1
        have "start + windowSize < len" using True by linarith
        with 1 "1.prems" show ?thesis by simp
      next
        case 2
        then have "start + hopSize \<le> s \<and> hopSize dvd s \<and> s + windowSize < len"
          unfolding IH by simp
        then show ?thesis by simp
      qed
    next
      fix s assume s: "s \<in> {s. start \<le> s \<and> hopSize dvd s \<and> s + windowSize < len}"
      show "s \<in> insert start (set (starts_from len (start + hopSize)))"
      proof (cases "s = start")
        case False
        with s have "start < s" "hopSize dvd s" by simp_all
        then have "start + hopSize \<le> s" using next_multiple[OF "1.prems"] by blast
        with s have "s \<in> set (starts_from len (start + hopSize))" unfolding IH by simp
        then show ?thesis by simp
      qed simp
    qed
    finally show ?thesis .
  next
    case False
    then show ?thesis by (auto simp: starts_from.simps[of len start])
  qed
qed

lemma set_full_window_starts:
  "set (full_window_starts len) = {s. hopSize dvd s \<and> s + windowSize \<le> len}"
  using windowSize_pos by (auto simp: full_window_starts_def)

lemma sum_full_window_starts:
  "(\<Sum>s\<leftarrow>full_window_starts len. f s) = (\<Sum>s\<leftarrow>starts_from (Suc len) 0. (f s :: real))"
proof -
  have "set (starts_from (Suc len) 0) = set (full_window_starts len)"
    by (auto simp: set_starts_from set_full_window_starts)
  moreover have "distinct (full_window_starts len)" by (simp add: full_window_starts_def)
  ultimately show ?thesis
    using distinct_starts_from[of "Suc len" 0] by (simp add: sum_list_distinct_conv_sum_set)
qed

lemma sum_starts_from_full_windows:
  assumes "\<not> (windowSize \<le> len \<and> hopSize dvd (len - windowSize))"
  shows "(\<Sum>s\<leftarrow>starts_from len 0. f s) = (\<Sum>s\<leftarrow>full_window_starts len. (f s :: real))"
proof -
  have "s + windowSize \<noteq> len" if "hopSize dvd s" for s
  proof
    assume e: "s + windowSize = len"
    then have "len - windowSize = s" "windowSize \<le> len" by simp_all
    with that assms show False by simp
  qed
  then have "set (starts_from len 0) = set (full_window_starts len)"
    by (auto simp: set_starts_from set_full_window_starts le_less)
  moreover have "distinct (full_window_starts len)" by (simp add: full_window_starts_def)
  ultimately show ?thesis
    using distinct_starts_from[of len 0] by (simp add: sum_list_distinct_conv_sum_set)
qed

text \<open>
  What the loops of the mono branch compute: the sum over the window starts that the
  loop visits. It is the overlap-add over the full windows unless a full window ends
  exactly at the end of the input.
\<close>

lemma mono_stems_processed:
  assumes wf: "wf_buffer b" and n: "numberOfChannels b = 1"
    and vb: "createBuffer (numberOfChannels b) (length_ab b) (sampleRate b) = Inr vb"
    and ab: "createBuffer (numberOfChannels b) (length_ab b) (sampleRate b) = Inr ab"
    and k: "k < length_ab b"
  shows "fst (mono_stems b vb ab) ! k
           = (\<Sum>s\<leftarrow>starts_from (length_ab b) 0.
                contribution vocalWeight (getChannelData b 0) s k)"
    and "snd (mono_stems b vb ab) ! k
           = (\<Sum>s\<leftarrow>starts_from (length_ab b) 0.
                contribution accompanimentWeight (getChannelData b 0) s k)"
proof -
  let ?len = "length_ab b" and ?inp = "getChannelData b 0"
  let ?z = "replicate ?len (0::real)"
  obtain vd ad where ms: "mono_stems b vb ab = (vd, ad)" by (metis surj_pair)
  have li: "length ?inp = ?len"
    using wf n by (auto simp: wf_buffer_def getChannelData_def list_all_length)
  have ch: "getChannelData vb 0 = ?z" "getChannelData ab 0 = ?z"
    using createBuffer_channels[OF vb] createBuffer_channels[OF ab] n by simp_all
  have ml: "mono_loop ?inp ?len 0 (?z, ?z) = (vd, ad)"
    using ms ch by (simp add: mono_stems_def)
  have spec: "vd ! k = (\<Sum>s\<leftarrow>starts_from ?len 0. contribution vocalWeight ?inp s k) \<and>
              ad ! k = (\<Sum>s\<leftarrow>starts_from ?len 0. contribution accompanimentWeight ?inp s k)"
    using mono_loop_spec[OF li _ _ ml] k by simp
  show "fst (mono_stems b vb ab) ! k
           = (\<Sum>s\<leftarrow>starts_from ?len 0. contribution vocalWeight ?inp s k)"
    and "snd (mono_stems b vb ab) ! k
           = (\<Sum>s\<leftarrow>starts_from ?len 0. contribution accompanimentWeight ?inp s k)"
    using spec ms by simp_all
qed

lemma mono_stems_overlap_add:
  assumes wf: "wf_buffer b" and n: "numberOfChannels b = 1"
    and vb: "createBuffer (numberOfChannels b) (length_ab b) (sampleRate b) = Inr vb"
    and ab: "createBuffer (numberOfChannels b) (length_ab b) (sampleRate b) = Inr ab"
    and k: "k < length_ab b"
    and nofit: "\<not> (windowSize \<le> length_ab b \<and> hopSize dvd (length_ab b - windowSize))"
  shows "fst (mono_stems b vb ab) ! k = overlap_add vocalWeight (getChannelData b 0) k"
    and "snd (mono_stems b vb ab) ! k = overlap_add accompanimentWeight (getChannelData b 0) k"
proof -
  have li: "length (getChannelData b 0) = length_ab b"
    using wf n by (auto simp: wf_buffer_def getChannelData_def list_all_length)
  show "fst (mono_stems b vb ab) ! k = overlap_add vocalWeight (getChannelData b 0) k"
    and "snd (mono_stems b vb ab) ! k = overlap_add accompanimentWeight (getChannelData b 0) k"
    unfolding mono_stems_processed[OF wf n vb ab k] overlap_add_def li
    by (rule sum_starts_from_full_windows[OF nofit])+
qed

lemma contribution_beyond:
  "s + windowSize \<le> k \<Longrightarrow> contribution w inp s k = 0"
  by (simp add: contribution_def)

lemma mono_stems_trailing_zero:
  assumes wf: "wf_buffer b" and n: "numberOfChannels b = 1"
    and vb: "createBuffer (numberOfChannels b) (length_ab b) (sampleRate b) = Inr vb"
    and ab: "createBuffer (numberOfChannels b) (length_ab b) (sampleRate b) = Inr ab"
    and k: "k < length_ab b"
    and beyond: "\<forall>s. hopSize dvd s \<and> s + windowSize \<le> length_ab b \<longrightarrow> s + windowSize \<le> k"
  shows "fst (mono_stems b vb ab) ! k = 0" and "snd (mono_stems b vb ab) ! k = 0"
proof -
  have z: "contribution w (getChannelData b 0) s k = 0"
    if "s \<in> set (starts_from (length_ab b) 0)" for s w
  proof -
    from that have "hopSize dvd s \<and> s + windowSize < length_ab b"
      by (simp add: set_starts_from)
    with beyond have "s + windowSize \<le> k" by auto
    then show ?thesis by (rule contribution_beyond)
  qed
  have eq: "map (\<lambda>s. contribution w (getChannelData b 0) s k) (starts_from (length_ab b) 0)
        = map (\<lambda>s. 0) (starts_from (length_ab b) 0)" for w
    by (intro map_cong) (simp_all add: z)
  show "fst (mono_stems b vb ab) ! k = 0" and "snd (mono_stems b vb ab) ! k = 0"
    unfolding mono_stems_processed[OF wf n vb ab k] eq by simp_all
qed

lemma peak_replicate_0: "peak (replicate n 0) = 0"
  by (simp add: peak_zero_iff)

lemma normalized_replicate_0: "normalized (replicate n 0) = replicate n 0"
  by (simp add: normalized_def peak_replicate_0)


section \<open>Properties of the orchestrator\<close>

lemma dispatch_invariant:
  assumes "run_invariant (s, runs)"
  shows "run_invariant (dispatch fmt (s, runs) e)"
proof (cases e)
  case Click
  with assms show ?thesis
    by (auto simp: run_invariant_def handleExtractVocals_def split: option.splits)
next
  case (ReaderLoad i dataUrl)
  with assms show ?thesis
    by (auto simp: run_invariant_def onload_begin_def)
next
  case (ReaderError i)
  with assms show ?thesis
    by (auto simp: run_invariant_def reader_onerror_def)
next
  case (Settle i outcome)
  with assms show ?thesis
    by (auto simp: run_invariant_def onload_settle_def Let_def split: run_phase.splits)
qed (use assms in \<open>auto simp: run_invariant_def\<close>)

lemma foldl_dispatch_invariant:
  "run_invariant sys \<Longrightarrow> run_invariant (foldl (dispatch fmt) sys evs)"
proof (induction evs arbitrary: sys)
  case Nil
  then show ?case by simp
next
  case (Cons e evs)
  obtain s runs where sys: "sys = (s, runs)" by (cases sys)
  show ?case using Cons.IH[OF dispatch_invariant[of s runs fmt e]] Cons.prems sys by simp
qed

lemma run_events_invariant: "run_invariant (run_events fmt evs)"
  unfolding run_events_def
  by (rule foldl_dispatch_invariant) (simp add: run_invariant_def initial_state_def)


lemma dispatch_engine_invariant:
  assumes "engine_invariant (s, runs)"
  shows "engine_invariant (dispatch fmt (s, runs) e)"
proof (cases e)
  case Click
  with assms show ?thesis
    by (auto simp: engine_invariant_def handleExtractVocals_def split: option.splits)
next
  case (ReaderLoad i dataUrl)
  with assms show ?thesis
    by (auto simp: engine_invariant_def onload_begin_def)
next
  case (ReaderError i)
  with assms show ?thesis
    by (auto simp: engine_invariant_def reader_onerror_def)
next
  case (Settle i outcome)
  with assms show ?thesis
    by (auto simp: engine_invariant_def onload_settle_def Let_def
        split: run_phase.splits sum.splits)
qed (use assms in \<open>auto simp: engine_invariant_def\<close>)

lemma foldl_dispatch_engine_invariant:
  "engine_invariant sys \<Longrightarrow> engine_invariant (foldl (dispatch fmt) sys evs)"
proof (induction evs arbitrary: sys)
  case Nil
  then show ?case by simp
next
  case (Cons e evs)
  obtain s runs where sys: "sys = (s, runs)" by (cases sys)
  show ?case
    using Cons.IH[OF dispatch_engine_invariant[of s runs fmt e]] Cons.prems sys by simp
qed

lemma run_events_engine_invariant: "engine_invariant (run_events fmt evs)"
  unfolding run_events_def
  by (rule foldl_dispatch_engine_invariant) (simp add: engine_invariant_def initial_state_def)

section \<open>Properties of the enhancement\<close>


lemma tf_transform_throws:
  "list_ex throws transform_calls \<Longrightarrow> \<exists>e. tf_transform throws st = Inl e"
  by (cases st) (auto simp: transform_calls_def tf_transform_def bind_exn_def tf_do_def)

lemma enhance_fails: "stops_before_copy_back backend \<Longrightarrow> enhance backend len st = st"
proof (cases backend)
  case None
  then show ?thesis by (simp add: enhance_def)
next
  case (Some throws)
  assume "stops_before_copy_back backend"
  with Some have "list_ex throws transform_calls" by (simp add: stops_before_copy_back_def)
  then obtain e where "tf_transform throws st = Inl e" using tf_transform_throws by blast
  with Some show ?thesis by (simp add: enhance_def)
qed

lemma separate_fails:
  "stops_before_copy_back backend \<Longrightarrow> separate backend b vb ab = separate None b vb ab"
  by (cases "2 \<le> numberOfChannels b")
     (simp_all add: separate_def enhance_fails stops_before_copy_back_def)

lemma extractVocals_fails:
  "stops_before_copy_back backend \<Longrightarrow> extractVocals backend b = extractVocals None b"
  by (simp add: extractVocals_def separate_fails)

lemma extractVocals_returns:
  "1 \<le> numberOfChannels b \<Longrightarrow> 1 \<le> length_ab b \<Longrightarrow>
   \<exists>vocals accompaniment. extractVocals backend b = Inr (vocals, accompaniment)"
  by (auto simp: extractVocals_def bind_exn_def createBuffer_def split: prod.splits)


lemma copy_back_spec:
  "length vl = len \<Longrightarrow> length vr = len \<Longrightarrow> length al = len \<Longrightarrow> length ar = len \<Longrightarrow>
   copy_back vd ad len i (vl, vr, al, ar) = (vl', vr', al', ar') \<Longrightarrow>
   length vl' = len \<and> length vr' = len \<and> length al' = len \<and> length ar' = len \<and>
   (\<forall>k<len. vl' ! k = (if i \<le> k then vd ! k else vl ! k) \<and>
            vr' ! k = (if i \<le> k then vd ! (k + len) else vr ! k) \<and>
            al' ! k = (if i \<le> k then ad ! k else al ! k) \<and>
            ar' ! k = (if i \<le> k then ad ! (k + len) else ar ! k))"
proof (induction vd ad len i "(vl, vr, al, ar)" arbitrary: vl vr al ar rule: copy_back.induct)
  case (1 vd ad len i vl vr al ar)
  show ?case
  proof (cases "i < len")
    case False
    with "1.prems" show ?thesis by (auto simp: copy_back.simps)
  next
    case True
    let ?vl = "vl[i := vd ! i]" and ?vr = "vr[i := vd ! (i + len)]"
    let ?al = "al[i := ad ! i]" and ?ar = "ar[i := ad ! (i + len)]"
    have step: "copy_back vd ad len (Suc i) (?vl, ?vr, ?al, ?ar) = (vl', vr', al', ar')"
      using "1.prems"(5) True by (simp add: copy_back.simps[of vd ad len i])
    have IH: "length vl' = len \<and> length vr' = len \<and> length al' = len \<and> length ar' = len \<and>
      (\<forall>k<len. vl' ! k = (if Suc i \<le> k then vd ! k else ?vl ! k) \<and>
            vr' ! k = (if Suc i \<le> k then vd ! (k + len) else ?vr ! k) \<and>
            al' ! k = (if Suc i \<le> k then ad ! k else ?al ! k) \<and>
            ar' ! k = (if Suc i \<le> k then ad ! (k + len) else ?ar ! k))"
      using "1.hyps"[OF True _ _ _ _ step] "1.prems"(1-4) by simp
    show ?thesis
    proof (intro conjI allI impI)
      fix k assume k: "k < len"
      from IH k "1.prems"(1-4) True
      show "vl' ! k = (if i \<le> k then vd ! k else vl ! k)"
        by (cases "k = i") (auto simp: nth_list_update)
      from IH k "1.prems"(1-4) True
      show "vr' ! k = (if i \<le> k then vd ! (k + len) else vr ! k)"
        by (cases "k = i") (auto simp: nth_list_update)
      from IH k "1.prems"(1-4) True
      show "al' ! k = (if i \<le> k then ad ! k else al ! k)"
        by (cases "k = i") (auto simp: nth_list_update)
      from IH k "1.prems"(1-4) True
      show "ar' ! k = (if i \<le> k then ad ! (k + len) else ar ! k)"
        by (cases "k = i") (auto simp: nth_list_update)
    qed (use IH in simp_all)
  qed
qed

lemma tf_transform_returns:
  "\<not> list_ex throws transform_calls \<Longrightarrow>
   tf_transform throws (vl, vr, al, ar) =
     Inr (map (\<lambda>x. tanh (x * 1.2)) vl @ map (\<lambda>x. tanh (x * 1.2)) vr,
          map (\<lambda>x. tanh (x * 1.1)) al @ map (\<lambda>x. tanh (x * 1.1)) ar)"
  by (simp add: tf_transform_def bind_exn_def tf_do_def transform_calls_def comp_def)

lemma enhance_copies_back:
  assumes ok: "\<not> list_ex throws transform_calls"
    and len: "length vl = len" "length vr = len" "length al = len" "length ar = len"
  shows "enhance (Some throws) len (vl, vr, al, ar) =
     (map (\<lambda>x. tanh (x * 1.2)) vl, map (\<lambda>x. tanh (x * 1.2)) vr,
      map (\<lambda>x. tanh (x * 1.1)) al, map (\<lambda>x. tanh (x * 1.1)) ar)"
proof -
  let ?vd = "map (\<lambda>x. tanh (x * 1.2)) vl @ map (\<lambda>x. tanh (x * 1.2)) vr"
  let ?ad = "map (\<lambda>x. tanh (x * 1.1)) al @ map (\<lambda>x. tanh (x * 1.1)) ar"
  obtain vl' vr' al' ar' where cb: "copy_back ?vd ?ad len 0 (vl, vr, al, ar) = (vl', vr', al', ar')"
    by (metis prod_cases4)
  have sp: "length vl' = len \<and> length vr' = len \<and> length al' = len \<and> length ar' = len \<and>
   (\<forall>k<len. vl' ! k = ?vd ! k \<and> vr' ! k = ?vd ! (k + len) \<and>
            al' ! k = ?ad ! k \<and> ar' ! k = ?ad ! (k + len))"
    using copy_back_spec[OF len cb] by simp
  have "vl' = map (\<lambda>x. tanh (x * 1.2)) vl" "vr' = map (\<lambda>x. tanh (x * 1.2)) vr"
       "al' = map (\<lambda>x. tanh (x * 1.1)) al" "ar' = map (\<lambda>x. tanh (x * 1.1)) ar"
    using sp len by (auto intro!: nth_equalityI simp: nth_append)
  then have res: "(vl', vr', al', ar') =
     (map (\<lambda>x. tanh (x * 1.2)) vl, map (\<lambda>x. tanh (x * 1.2)) vr,
      map (\<lambda>x. tanh (x * 1.1)) al, map (\<lambda>x. tanh (x * 1.1)) ar)"
    by (simp only:)
  have "enhance (Some throws) len (vl, vr, al, ar) = copy_back ?vd ?ad len 0 (vl, vr, al, ar)"
    by (simp add: enhance_def tf_transform_returns[OF ok] split: sum.splits)
  also have "\<dots> = (vl', vr', al', ar')" by (rule cb)
  finally show ?thesis unfolding res .
qed

lemma enhance_reliable:
  assumes "length vl = len" "length vr = len" "length al = len" "length ar = len"
  shows "enhance (Some tf_reliable) len (vl, vr, al, ar) =
     (map (\<lambda>x. tanh (x * 1.2)) vl, map (\<lambda>x. tanh (x * 1.2)) vr,
      map (\<lambda>x. tanh (x * 1.1)) al, map (\<lambda>x. tanh (x * 1.1)) ar)"
  by (rule enhance_copies_back[OF _ assms]) (simp add: tf_reliable_def transform_calls_def)

lemma smoothed_constant: "(\<forall>j\<le>i. x j = c) \<Longrightarrow> smoothed x i = c"
  by (induction i) (simp_all add: algebra_simps)

lemma tanh_three_fifths: "0 < tanh (3 / 5 :: real) \<and> tanh (3 / 5 :: real) < 9 / 10"
proof -
  define t :: real where "t = exp (- (6 / 5))"
  have "exp (6 / 5 :: real) \<le> exp 2" by simp
  also have "exp (2 :: real) = exp 1 * exp 1" by (simp add: exp_add[symmetric])
  also have "\<dots> \<le> 3 * 3" using exp_le by (intro mult_mono) simp_all
  finally have "exp (6 / 5 :: real) \<le> 9" by simp
  then have lo: "1 / 9 \<le> t"
    unfolding t_def by (simp add: exp_minus field_simps)
  have hi: "t < 1" unfolding t_def by simp
  have th: "tanh (3 / 5 :: real) = (1 - t) / (1 + t)"
    using tanh_real_altdef[of "3 / 5"] by (simp add: t_def)
  have "0 < (1 - t) / (1 + t)" using lo hi by simp
  moreover have "(1 - t) / (1 + t) < 9 / 10" using lo hi by (simp add: field_simps)
  ultimately show ?thesis unfolding th by simp
qed


lemma peak_replicate: "0 < n \<Longrightarrow> peak (replicate n c) = \<bar>c\<bar>"
  by (simp add: peak_def)

lemma normalized_replicate: "\<bar>c\<bar> \<le> 0.9 \<Longrightarrow> normalized (replicate n c) = replicate n c"
proof (cases "n = 0")
  case True
  then show ?thesis by (simp add: normalized_def)
next
  case False
  assume "\<bar>c\<bar> \<le> 0.9"
  with False have "peak (replicate n c) \<le> 0.9" by (simp only: peak_replicate)
  then show ?thesis by (rule normalized_low_peak)
qed

lemma constant_stems:
  assumes L: "1 \<le> L"
    and b: "b = \<lparr>length_ab = L, sampleRate = r, numberOfChannels = 2,
                 channelData = [replicate L c, replicate L c]\<rparr>"
    and z: "z = \<lparr>length_ab = L, sampleRate = r, numberOfChannels = 2,
                 channelData = [replicate L 0, replicate L 0]\<rparr>"
  shows "stereo_stems b z z = (replicate L c, replicate L c, replicate L 0, replicate L 0)"
proof -
  have wf: "wf_buffer b" and n: "2 \<le> numberOfChannels b" and L': "1 \<le> length_ab b"
    using b L by (simp_all add: wf_buffer_def)
  have cb: "createBuffer (numberOfChannels b) (length_ab b) (sampleRate b) = Inr z"
    using b z L by (simp add: createBuffer_def numeral_2_eq_2)
  have len: "length_ab b = L" using b by simp
  obtain vl vr al ar where st: "stereo_stems b z z = (vl, vr, al, ar)" by (metis prod_cases4)
  have ce: "center b j = c" and sl: "sideLeft b j = 0" and sr: "sideRight b j = 0" if "j < L" for j
    using that b by (simp_all add: center_def sideLeft_def sideRight_def getChannelData_def)
  have sm: "smoothed (center b) i = c \<and> smoothed (sideLeft b) i = 0 \<and> smoothed (sideRight b) i = 0"
    if "i < L" for i
    using that ce sl sr by (auto intro!: smoothed_constant)
  have sp: "length vl = L \<and> length vr = L \<and> length al = L \<and> length ar = L \<and>
         vl ! i = c \<and> vr ! i = c \<and> al ! i = 0 \<and> ar ! i = 0" if "i < L" for i
    using stereo_stems_spec[OF wf n L' cb cb, of i] that sm[OF that] st len by simp
  have l0: "length vl = L \<and> length vr = L \<and> length al = L \<and> length ar = L"
    using sp[of 0] L by simp
  have "vl = replicate L c" "vr = replicate L c" "al = replicate L 0" "ar = replicate L 0"
    using l0 sp by (auto intro!: nth_equalityI)
  with st show ?thesis by simp
qed

lemma constant_extract:
  assumes L: "1 \<le> L"
    and b: "b = \<lparr>length_ab = L, sampleRate = r, numberOfChannels = 2,
                 channelData = [replicate L c, replicate L c]\<rparr>"
    and e: "enhance backend L (replicate L c, replicate L c, replicate L 0, replicate L 0)
              = (replicate L v, replicate L v, replicate L 0, replicate L 0)"
    and v: "\<bar>v\<bar> \<le> 0.9"
  shows "extractVocals backend b =
     Inr (\<lparr>length_ab = L, sampleRate = r, numberOfChannels = 2,
            channelData = [replicate L v, replicate L v]\<rparr>,
          \<lparr>length_ab = L, sampleRate = r, numberOfChannels = 2,
            channelData = [replicate L 0, replicate L 0]\<rparr>)"
proof -
  let ?z = "\<lparr>length_ab = L, sampleRate = r, numberOfChannels = 2,
                 channelData = [replicate L 0, replicate L (0::real)]\<rparr>"
  have cb: "createBuffer (numberOfChannels b) (length_ab b) (sampleRate b) = Inr ?z"
    using b L by (simp add: createBuffer_def numeral_2_eq_2)
  have st: "stereo_stems b ?z ?z = (replicate L c, replicate L c, replicate L 0, replicate L 0)"
    by (rule constant_stems[OF L b refl])
  have n: "2 \<le> numberOfChannels b" and len: "length_ab b = L" using b by simp_all
  have sep: "separate backend b ?z ?z = ([replicate L v, replicate L v], [replicate L 0, replicate L 0])"
    using n by (simp add: separate_def st e len)
  have nl: "normalize_loop 2 L 0 ([replicate L v, replicate L v], [replicate L 0, replicate L 0])
      = ([replicate L v, replicate L v], [replicate L 0, replicate L 0])"
    using normalize_loop_map[of "[replicate L v, replicate L v]" 2 "[replicate L 0, replicate L 0]" L]
      normalized_replicate[OF v, of L] normalized_replicate[of 0 L]
    by simp
  have nc: "numberOfChannels b = 2" using b by simp
  have cb': "createBuffer 2 L (sampleRate b) = Inr ?z" using cb nc len by simp
  show ?thesis
    by (simp add: extractVocals_def cb' bind_exn_def sep nl nc len)
qed

lemma enhance_constant_reliable:
  "enhance (Some tf_reliable) L (replicate L c, replicate L c, replicate L 0, replicate L 0)
     = (replicate L (tanh (c * 1.2)), replicate L (tanh (c * 1.2)), replicate L 0, replicate L 0)"
  using enhance_reliable[of "replicate L c" L "replicate L c" "replicate L 0" "replicate L 0"]
  by simp


section \<open>Properties of the container encoder\<close>

lemma b64_value_char: "i < 64 \<Longrightarrow> b64_value (b64_char i) = i"
  by (auto simp: b64_value_def b64_char_def Let_def)

lemma b64_char_not_pad: "i < 64 \<Longrightarrow> b64_char i \<noteq> CHR ''=''"
proof
  assume i: "i < 64" and eq: "b64_char i = CHR ''=''"
  have "(of_char (b64_char i) :: nat) \<noteq> 61" using i by (auto simp: b64_char_def)
  moreover have "(of_char (b64_char i) :: nat) = 61" unfolding eq by simp
  ultimately show False by simp
qed

lemma of_char_lt_256: "(of_char c :: nat) < 256"
  by (metis of_char_mod_256 mod_less_divisor zero_less_numeral)

lemma sextet_bounds:
  fixes x y z :: nat
  assumes "x < 256" "y < 256" "z < 256"
  shows "x div 4 < 64" "(x mod 4) * 16 < 64" "(x mod 4) * 16 + y div 16 < 64"
    "(y mod 16) * 4 < 64" "(y mod 16) * 4 + z div 64 < 64" "z mod 64 < 64"
  using assms by auto

lemma regroup:
  fixes x y z :: nat
  assumes "x < 256" "y < 256" "z < 256"
  shows "x div 4 * 4 + (x mod 4) * 16 div 16 = x"
    "x div 4 * 4 + ((x mod 4) * 16 + y div 16) div 16 = x"
    "(((x mod 4) * 16 + y div 16) mod 16) * 16 + (y mod 16) * 4 div 4 = y"
    "(((x mod 4) * 16 + y div 16) mod 16) * 16 + ((y mod 16) * 4 + z div 64) div 4 = y"
    "(((y mod 16) * 4 + z div 64) mod 4) * 64 + z mod 64 = z"
  using assms by simp_all

lemma atob_btoa: "atob (btoa s) = s"
proof (induction s rule: btoa.induct)
  case 1
  show ?case by simp
next
  case (2 a)
  let ?x = "of_char a :: nat"
  have x: "?x < 256" by (rule of_char_lt_256)
  have s1: "?x div 4 < 64" and s2: "(?x mod 4) * 16 < 64"
    by (rule sextet_bounds[OF x x x])+
  have v1: "b64_value (b64_char (?x div 4)) = ?x div 4"
    and v2: "b64_value (b64_char ((?x mod 4) * 16)) = (?x mod 4) * 16"
    using s1 s2 by (simp_all only: b64_value_char)
  have g: "atob (btoa [a]) = [char_of (?x div 4 * 4 + (?x mod 4) * 16 div 16)]"
    by (simp only: btoa.simps atob.simps Let_def v1 v2 if_True refl)
  have "?x div 4 * 4 + (?x mod 4) * 16 div 16 = ?x" by (rule regroup[OF x x x])
  then show ?case unfolding g by simp
next
  case (3 a b)
  let ?x = "of_char a :: nat" and ?y = "of_char b :: nat"
  have x: "?x < 256" and y: "?y < 256" by (rule of_char_lt_256)+
  have s1: "?x div 4 < 64" and s2: "(?x mod 4) * 16 + ?y div 16 < 64" and s3: "(?y mod 16) * 4 < 64"
    by (rule sextet_bounds[OF x y y])+
  have v1: "b64_value (b64_char (?x div 4)) = ?x div 4"
    and v2: "b64_value (b64_char ((?x mod 4) * 16 + ?y div 16)) = (?x mod 4) * 16 + ?y div 16"
    and v3: "b64_value (b64_char ((?y mod 16) * 4)) = (?y mod 16) * 4"
    and n3: "b64_char ((?y mod 16) * 4) \<noteq> CHR ''=''"
    using s1 s2 s3 by (simp_all only: b64_value_char b64_char_not_pad not_False_eq_True)
  have e1: "?x div 4 * 4 + ((?x mod 4) * 16 + ?y div 16) div 16 = ?x"
    by (rule regroup[OF x y y])
  have e2: "(((?x mod 4) * 16 + ?y div 16) mod 16) * 16 + (?y mod 16) * 4 div 4 = ?y"
    by (rule regroup[OF x y y])
  have "atob (btoa [a, b]) =
      [char_of (?x div 4 * 4 + ((?x mod 4) * 16 + ?y div 16) div 16),
       char_of ((((?x mod 4) * 16 + ?y div 16) mod 16) * 16 + (?y mod 16) * 4 div 4)]"
    by (simp only: btoa.simps atob.simps Let_def v1 v2 v3 n3 if_False if_True refl)
  then show ?case unfolding e1 e2 by simp
next
  case (4 a b c rest)
  let ?x = "of_char a :: nat" and ?y = "of_char b :: nat" and ?z = "of_char c :: nat"
  have x: "?x < 256" and y: "?y < 256" and z: "?z < 256" by (rule of_char_lt_256)+
  have s1: "?x div 4 < 64" and s2: "(?x mod 4) * 16 + ?y div 16 < 64"
    and s3: "(?y mod 16) * 4 + ?z div 64 < 64" and s4: "?z mod 64 < 64"
    by (rule sextet_bounds[OF x y z])+
  have v1: "b64_value (b64_char (?x div 4)) = ?x div 4"
    and v2: "b64_value (b64_char ((?x mod 4) * 16 + ?y div 16)) = (?x mod 4) * 16 + ?y div 16"
    and v3: "b64_value (b64_char ((?y mod 16) * 4 + ?z div 64)) = (?y mod 16) * 4 + ?z div 64"
    and v4: "b64_value (b64_char (?z mod 64)) = ?z mod 64"
    and n3: "b64_char ((?y mod 16) * 4 + ?z div 64) \<noteq> CHR ''=''"
    and n4: "b64_char (?z mod 64) \<noteq> CHR ''=''"
    using s1 s2 s3 s4 by (simp_all only: b64_value_char b64_char_not_pad not_False_eq_True)
  have e1: "?x div 4 * 4 + ((?x mod 4) * 16 + ?y div 16) div 16 = ?x"
    by (rule regroup[OF x y z])
  have e2: "(((?x mod 4) * 16 + ?y div 16) mod 16) * 16 + ((?y mod 16) * 4 + ?z div 64) div 4 = ?y"
    by (rule regroup[OF x y z])
  have e3: "(((?y mod 16) * 4 + ?z div 64) mod 4) * 64 + ?z mod 64 = ?z"
    by (rule regroup[OF x y z])
  have "atob (btoa (a # b # c # rest)) =
      [char_of (?x div 4 * 4 + ((?x mod 4) * 16 + ?y div 16) div 16),
       char_of ((((?x mod 4) * 16 + ?y div 16) mod 16) * 16 + ((?y mod 16) * 4 + ?z div 64) div 4),
       char_of ((((?y mod 16) * 4 + ?z div 64) mod 4) * 64 + ?z mod 64)] @ atob (btoa rest)"
    by (simp only: btoa.simps atob.simps Let_def v1 v2 v3 v4 n3 n4 if_False if_True refl
        append.simps)
  then show ?case unfolding e1 e2 e3 using "4.IH" by simp
qed

lemma bytes_update: "bytes bs \<Longrightarrow> v < 256 \<Longrightarrow> bytes (bs[i := v])"
  unfolding bytes_def using set_update_subset_insert[of bs i v] by auto

lemma setUint16_spec:
  "length (setUint16 view off v) = length view"
  "bytes view \<Longrightarrow> bytes (setUint16 view off v)"
  "k < off \<Longrightarrow> setUint16 view off v ! k = view ! k"
  by (simp_all add: setUint16_def bytes_update)

lemma setInt16_spec:
  "length (setInt16 view off x) = length view"
  "bytes view \<Longrightarrow> bytes (setInt16 view off x)"
  "k < off \<Longrightarrow> setInt16 view off x ! k = view ! k"
  by (simp_all add: setInt16_def setUint16_spec)

lemma wav_channel_loop_spec:
  "44 \<le> offset \<Longrightarrow> wav_channel_loop b i ch (view, offset) = (view', offset') \<Longrightarrow>
   length view' = length view \<and> 44 \<le> offset' \<and> (bytes view \<longrightarrow> bytes view') \<and>
   (\<forall>k<44. view' ! k = view ! k)"
proof (induction b i ch "(view, offset)" arbitrary: view offset rule: wav_channel_loop.induct)
  case (1 b i ch view offset)
  show ?case
  proof (cases "ch < numberOfChannels b")
    case False
    with "1.prems" show ?thesis by (simp add: wav_channel_loop.simps[of b i ch])
  next
    case True
    let ?v = "setInt16 view offset (max (- 1) (min 1 (getChannelData b ch ! i)) * 32767)"
    have step: "wav_channel_loop b i (Suc ch) (?v, offset + 2) = (view', offset')"
      using "1.prems"(2) True by (simp add: wav_channel_loop.simps[of b i ch])
    have IH: "length view' = length ?v \<and> 44 \<le> offset' \<and> (bytes ?v \<longrightarrow> bytes view') \<and>
       (\<forall>k<44. view' ! k = ?v ! k)"
      using "1.hyps"[OF True refl _ step] "1.prems"(1) by simp
    show ?thesis
      using IH "1.prems"(1) by (auto simp: setInt16_spec)
  qed
qed

lemma wav_sample_loop_spec:
  "44 \<le> offset \<Longrightarrow> wav_sample_loop b i (view, offset) = (view', offset') \<Longrightarrow>
   length view' = length view \<and> (bytes view \<longrightarrow> bytes view') \<and>
   (\<forall>k<44. view' ! k = view ! k)"
proof (induction b i "(view, offset)" arbitrary: view offset rule: wav_sample_loop.induct)
  case (1 b i view offset)
  show ?case
  proof (cases "i < length_ab b")
    case False
    with "1.prems" show ?thesis by (simp add: wav_sample_loop.simps[of b i])
  next
    case True
    obtain v1 o1 where c: "wav_channel_loop b i 0 (view, offset) = (v1, o1)" by (metis surj_pair)
    have cs: "length v1 = length view \<and> 44 \<le> o1 \<and> (bytes view \<longrightarrow> bytes v1) \<and>
       (\<forall>k<44. v1 ! k = view ! k)"
      by (rule wav_channel_loop_spec[OF "1.prems"(1) c])
    have step: "wav_sample_loop b (Suc i) (v1, o1) = (view', offset')"
      using "1.prems"(2) True c by (simp add: wav_sample_loop.simps[of b i])
    have IH: "length view' = length v1 \<and> (bytes v1 \<longrightarrow> bytes view') \<and>
       (\<forall>k<44. view' ! k = v1 ! k)"
      using "1.hyps"[OF True c _ step] cs by simp
    show ?thesis using IH cs by auto
  qed
qed

lemma take4_drop:
  "off + 4 \<le> length bs \<Longrightarrow>
   take 4 (drop off bs) = [bs ! off, bs ! (off + 1), bs ! (off + 2), bs ! (off + 3)]"
proof (rule nth_equalityI)
  show "off + 4 \<le> length bs \<Longrightarrow>
    length (take 4 (drop off bs)) = length [bs ! off, bs ! (off + 1), bs ! (off + 2), bs ! (off + 3)]"
    by simp
next
  fix i
  assume le: "off + 4 \<le> length bs" and "i < length (take 4 (drop off bs))"
  then have "i < 4" by simp
  then consider "i = 0" | "i = 1" | "i = 2" | "i = 3" by linarith
  then show "take 4 (drop off bs) ! i = [bs ! off, bs ! (off + 1), bs ! (off + 2), bs ! (off + 3)] ! i"
    using le by cases simp_all
qed

lemma has_tag4:
  "off + 4 \<le> length bs \<Longrightarrow>
   has_tag bs off [a, b, c, d] \<longleftrightarrow>
     bs ! off = of_char a \<and> bs ! (off + 1) = of_char b \<and>
     bs ! (off + 2) = of_char c \<and> bs ! (off + 3) = of_char d"
proof -
  assume le: "off + 4 \<le> length bs"
  have l4: "length [a, b, c, d] = 4" by simp
  have "has_tag bs off [a, b, c, d] \<longleftrightarrow>
      take 4 (drop off bs) = [of_char a, of_char b, of_char c, of_char d]"
    unfolding has_tag_def l4 by simp
  also have "\<dots> \<longleftrightarrow> [bs ! off, bs ! (off + 1), bs ! (off + 2), bs ! (off + 3)]
      = [of_char a, of_char b, of_char c, of_char d]"
    by (simp only: take4_drop[OF le])
  finally show ?thesis by simp
qed

lemma parse_wav_cong:
  assumes len: "length bs = length bs'" and eq: "\<forall>k<44. bs ! k = bs' ! k"
  shows "parse_wav bs = parse_wav bs'"
proof (cases "44 \<le> length bs")
  case False
  then show ?thesis using len by (simp add: parse_wav_def)
next
  case True
  have t: "has_tag bs off [a, b, c, d] = has_tag bs' off [a, b, c, d]" if "off + 4 \<le> 44"
    for off a b c d
    using that True len eq by (simp add: has_tag4)
  have u16: "u16le bs off = u16le bs' off" if "off + 2 \<le> 44" for off
    using that eq by (simp add: u16le_def)
  have u32: "u32le bs off = u32le bs' off" if "off + 4 \<le> 44" for off
    using that eq by (simp add: u32le_def)
  show ?thesis
    unfolding parse_wav_def by (simp add: t u16 u32 len)
qed


lemma le16: "(v::nat) mod 256 + 256 * (v div 256 mod 256) = v mod 65536"
proof -
  have "v mod (256 * 256) = 256 * (v div 256 mod 256) + v mod 256" by (rule mod_mult2_eq)
  then show ?thesis by simp
qed

lemma le32:
  "(v::nat) mod 256 + 256 * (v div 256 mod 256) + 65536 * (v div 65536 mod 256)
     + 16777216 * (v div 16777216 mod 256) = v mod 4294967296"
proof -
  have "v mod (65536 * 65536) = 65536 * (v div 65536 mod 65536) + v mod 65536"
    by (rule mod_mult2_eq)
  then have b: "v mod 4294967296 = v mod 65536 + 65536 * (v div 65536 mod 65536)" by simp
  have c: "(v div 65536) mod 256 + 256 * (v div 65536 div 256 mod 256) = v div 65536 mod 65536"
    by (rule le16)
  have d: "v div 65536 div 256 = v div 16777216" by (simp add: div_mult2_eq[symmetric])
  show ?thesis unfolding b le16[symmetric] c[symmetric] d by simp
qed

lemma wav_header_fields:
  assumes N: "44 \<le> length view0"
  shows "length (wav_header b view0) = length view0"
    and "has_tag (wav_header b view0) 0 ''RIFF''"
    and "u32le (wav_header b view0) 4 = (36 + length_ab b * numberOfChannels b * 2) mod 4294967296"
    and "has_tag (wav_header b view0) 8 ''WAVE''"
    and "has_tag (wav_header b view0) 12 ''fmt ''"
    and "u32le (wav_header b view0) 16 = 16"
    and "u16le (wav_header b view0) 20 = 1"
    and "u16le (wav_header b view0) 22 = numberOfChannels b mod 65536"
    and "u32le (wav_header b view0) 24 = sampleRate b mod 4294967296"
    and "u32le (wav_header b view0) 28 = (sampleRate b * numberOfChannels b * 2) mod 4294967296"
    and "u16le (wav_header b view0) 32 = (numberOfChannels b * 2) mod 65536"
    and "u16le (wav_header b view0) 34 = 16"
    and "has_tag (wav_header b view0) 36 ''data''"
    and "u32le (wav_header b view0) 40 = (length_ab b * numberOfChannels b * 2) mod 4294967296"
proof -
  have ne: "view0 \<noteq> []" using N by auto
  note defs = wav_header_def Let_def writeString_def setUint8_def setUint16_def setUint32_def
    nth_list_update ne
  show len: "length (wav_header b view0) = length view0"
    by (simp add: wav_header_def Let_def writeString_def setUint8_def setUint16_def setUint32_def)
  show "has_tag (wav_header b view0) 0 ''RIFF''"
    using N by (subst has_tag4) (simp_all add: len,
      simp_all add: defs)
  show "has_tag (wav_header b view0) 8 ''WAVE''"
    using N by (subst has_tag4) (simp_all add: len,
      simp_all add: defs)
  show "has_tag (wav_header b view0) 12 ''fmt ''"
    using N by (subst has_tag4) (simp_all add: len,
      simp_all add: defs)
  show "has_tag (wav_header b view0) 36 ''data''"
    using N by (subst has_tag4) (simp_all add: len,
      simp_all add: defs)
  show "u32le (wav_header b view0) 4 = (36 + length_ab b * numberOfChannels b * 2) mod 4294967296"
    unfolding le32[symmetric] using N
    by (simp add: u32le_def defs)
  show "u32le (wav_header b view0) 16 = 16"
    using N
    by (simp add: u32le_def defs)
  show "u16le (wav_header b view0) 20 = 1"
    using N
    by (simp add: u16le_def defs)
  show "u16le (wav_header b view0) 22 = numberOfChannels b mod 65536"
    unfolding le16[symmetric] using N
    by (simp add: u16le_def defs)
  show "u32le (wav_header b view0) 24 = sampleRate b mod 4294967296"
    unfolding le32[symmetric] using N
    by (simp add: u32le_def defs)
  show "u32le (wav_header b view0) 28 = (sampleRate b * numberOfChannels b * 2) mod 4294967296"
    unfolding le32[symmetric] using N
    by (simp add: u32le_def defs mult.commute)
  show "u16le (wav_header b view0) 32 = (numberOfChannels b * 2) mod 65536"
    unfolding le16[symmetric] using N
    by (simp add: u16le_def defs)
  show "u16le (wav_header b view0) 34 = 16"
    using N
    by (simp add: u16le_def defs)
  show "u32le (wav_header b view0) 40 = (length_ab b * numberOfChannels b * 2) mod 4294967296"
    unfolding le32[symmetric] using N
    by (simp add: u32le_def defs)
qed


lemma bytes_replicate_0: "bytes (replicate n 0)"
  by (simp add: bytes_def)

lemma setUint8_bytes: "bytes view \<Longrightarrow> bytes (setUint8 view off v)"
  by (simp add: setUint8_def bytes_update)

lemma setUint32_bytes: "bytes view \<Longrightarrow> bytes (setUint32 view off v)"
  by (simp add: setUint32_def bytes_update)

lemma writeString_bytes: "bytes view \<Longrightarrow> bytes (writeString view off string)"
  unfolding writeString_def
  by (induction string arbitrary: view off) (simp_all add: setUint8_bytes)

lemma wav_header_bytes: "bytes view0 \<Longrightarrow> bytes (wav_header b view0)"
  by (simp add: wav_header_def Let_def writeString_bytes setUint32_bytes setUint16_spec(2))

lemma map_of_char_char_of: "bytes bs \<Longrightarrow> map of_char (map char_of bs) = bs"
  by (induction bs) (simp_all add: bytes_def)

lemma wavData_spec:
  "length (wavData b) = 44 + length_ab b * numberOfChannels b * 2"
  "bytes (wavData b)"
  "parse_wav (wavData b)
     = parse_wav (wav_header b (replicate (44 + length_ab b * numberOfChannels b * 2) 0))"
proof -
  let ?N = "44 + length_ab b * numberOfChannels b * 2"
  let ?h = "wav_header b (replicate ?N 0)"
  obtain view offset where l: "wav_sample_loop b 0 (?h, 44) = (view, offset)" by (metis surj_pair)
  have hl: "length ?h = ?N" using wav_header_fields(1)[of "replicate ?N 0" b] by simp
  have hb: "bytes ?h" by (rule wav_header_bytes[OF bytes_replicate_0])
  have sp: "length view = length ?h \<and> (bytes ?h \<longrightarrow> bytes view) \<and> (\<forall>k<44. view ! k = ?h ! k)"
    by (rule wav_sample_loop_spec[OF _ l]) simp
  have w: "wavData b = view" by (simp add: wavData_def l)
  show "length (wavData b) = ?N" using sp hl w by simp
  show "bytes (wavData b)" using sp hb w by simp
  show "parse_wav (wavData b) = parse_wav ?h"
    unfolding w using sp by (intro parse_wav_cong) simp_all
qed

lemma parse_wavData:
  assumes n1: "1 \<le> numberOfChannels b" and n2: "numberOfChannels b < 32768"
    and r: "sampleRate b * numberOfChannels b * 2 < 4294967296"
    and s: "36 + length_ab b * numberOfChannels b * 2 < 4294967296"
  shows "parse_wav (wavData b) = Some (numberOfChannels b, sampleRate b, length_ab b)"
proof -
  let ?n = "numberOfChannels b" and ?len = "length_ab b" and ?r = "sampleRate b"
  let ?N = "44 + ?len * ?n * 2"
  let ?h = "wav_header b (replicate ?N 0)"
  have N: "44 \<le> length (replicate ?N (0::nat))" by simp
  note f = wav_header_fields[OF N, of b]
  have r': "?r < 4294967296"
  proof -
    have "1 \<le> ?n * 2" using n1 by linarith
    then have "?r * 1 \<le> ?r * (?n * 2)" by (rule mult_le_mono2)
    then have "?r \<le> ?r * ?n * 2" by (simp only: mult_1_right mult.assoc)
    with r show ?thesis by linarith
  qed
  have f4: "u32le ?h 4 = 36 + ?len * ?n * 2" using f(3) s by simp
  have f22: "u16le ?h 22 = ?n" using f(8) n2 by simp
  have f24: "u32le ?h 24 = ?r" using f(9) r' by simp
  have f28: "u32le ?h 28 = ?r * ?n * 2" using f(10) r by simp
  have f32: "u16le ?h 32 = ?n * 2" using f(11) n2 by simp
  have f40: "u32le ?h 40 = ?len * ?n * 2" using f(14) s by simp
  have lh: "length ?h = ?N" using f(1) by simp
  have dv: "?len * ?n * 2 div (?n * 2) = ?len" using n1 by (simp add: mult.assoc)
  have "parse_wav ?h = Some (?n, ?r, ?len)"
    unfolding parse_wav_def
    using f(2,4,5,6,7,12,13) n1
    by (simp add: f4 f22 f24 f28 f32 f40 lh dv)
  then show ?thesis by (simp only: wavData_spec(3))
qed


text \<open>
  Claim C1. For a stereo input of length at least 1, before the enhancement both
  vocal channels are the smoothing (coefficient 0.3) of the centre signal
  \<open>(left + right) / 2\<close>, and the left and right accompaniment channels are the
  smoothing of \<open>left - center\<close> and of \<open>right - center\<close>.
\<close>

theorem stereo_separation_smoothed:
  assumes wf: "wf_buffer b" and n: "2 \<le> numberOfChannels b" and L: "1 \<le> length_ab b"
    and vb: "createBuffer (numberOfChannels b) (length_ab b) (sampleRate b) = Inr vb"
    and ab: "createBuffer (numberOfChannels b) (length_ab b) (sampleRate b) = Inr ab"
    and i: "i < length_ab b"
  shows "case stereo_stems b vb ab of (vl, vr, al, ar) \<Rightarrow>
         length vl = length_ab b \<and> length vr = length_ab b \<and>
         length al = length_ab b \<and> length ar = length_ab b \<and>
         vl ! i = smoothed (center b) i \<and> vr ! i = smoothed (center b) i \<and>
         al ! i = smoothed (sideLeft b) i \<and> ar ! i = smoothed (sideRight b) i"
  using assms by (rule stereo_stems_spec)

theorem stereo_separation_smoothed_witness:
  "wf_buffer \<lparr>length_ab = 2, sampleRate = 44100, numberOfChannels = 2,
              channelData = [[1, 0], [0, 1]]\<rparr> \<and>
   2 \<le> numberOfChannels \<lparr>length_ab = 2, sampleRate = 44100, numberOfChannels = 2,
              channelData = [[1, 0], [0, 1]]\<rparr> \<and>
   1 \<le> length_ab \<lparr>length_ab = 2, sampleRate = 44100, numberOfChannels = 2,
              channelData = [[1, 0], [0, 1]]\<rparr> \<and>
   createBuffer 2 2 44100 = Inr \<lparr>length_ab = 2, sampleRate = 44100, numberOfChannels = 2,
              channelData = [[0, 0], [0, 0]]\<rparr> \<and>
   (1::nat) < 2 \<and>
   (case stereo_stems
           \<lparr>length_ab = 2, sampleRate = 44100, numberOfChannels = 2,
              channelData = [[1, 0], [0, 1]]\<rparr>
           \<lparr>length_ab = 2, sampleRate = 44100, numberOfChannels = 2,
              channelData = [[0, 0], [0, 0]]\<rparr>
           \<lparr>length_ab = 2, sampleRate = 44100, numberOfChannels = 2,
              channelData = [[0, 0], [0, 0]]\<rparr> of
      (vl, vr, al, ar) \<Rightarrow>
        vl ! 1 = 1 / 2 \<and> vr ! 1 = 1 / 2 \<and> al ! 1 = 1 / 5 \<and> ar ! 1 = - (1 / 5))"
proof -
  let ?b = "\<lparr>length_ab = 2, sampleRate = 44100, numberOfChannels = 2,
              channelData = [[1, 0], [0, 1::real]]\<rparr>"
  let ?z = "\<lparr>length_ab = 2, sampleRate = 44100, numberOfChannels = 2,
              channelData = [[0, 0], [0, 0::real]]\<rparr>"
  have h1: "wf_buffer ?b" by (simp add: wf_buffer_def)
  have h2: "2 \<le> numberOfChannels ?b" by simp
  have h3: "1 \<le> length_ab ?b" by simp
  have h4: "createBuffer (numberOfChannels ?b) (length_ab ?b) (sampleRate ?b) = Inr ?z"
    by (simp add: createBuffer_def numeral_2_eq_2)
  have h5: "1 < length_ab ?b" by simp
  have c: "smoothed (center ?b) 1 = 1 / 2" and l: "smoothed (sideLeft ?b) 1 = 1 / 5"
    and r: "smoothed (sideRight ?b) 1 = - (1 / 5)"
    by (simp_all add: center_def sideLeft_def sideRight_def getChannelData_def)
  show ?thesis
    using stereo_separation_smoothed[OF h1 h2 h3 h4 h4 h5] h1 h4 c l r
    by (auto split: prod.splits)
qed


text \<open>
  Claim C2 at a mono input of 1280 samples, all 1. Sample 1100 lies in the full
  window that starts at 256 and ends at the end of the input, so the overlap-add of
  the claim gives it the vocal weight 1 and the accompaniment weight 45/128. The loop
  of the code stops before that window (its test is \<open>start < length - windowSize\<close>)
  and leaves the sample at 0 in both outputs.
\<close>

theorem mono_exact_fit_window_skipped:
  "wf_buffer exact_fit_input \<and> numberOfChannels exact_fit_input = 1 \<and>
   createBuffer 1 1280 44100 = Inr exact_fit_silence \<and>
   starts_from 1280 0 = [0] \<and>
   fst (mono_stems exact_fit_input exact_fit_silence exact_fit_silence) ! 1100 = 0 \<and>
   snd (mono_stems exact_fit_input exact_fit_silence exact_fit_silence) ! 1100 = 0 \<and>
   overlap_add vocalWeight (getChannelData exact_fit_input 0) 1100 = 1 \<and>
   overlap_add accompanimentWeight (getChannelData exact_fit_input 0) 1100 = 45 / 128"
proof -
  have wf: "wf_buffer exact_fit_input" by (simp add: exact_fit_input_def wf_buffer_def)
  have n: "numberOfChannels exact_fit_input = 1" by (simp add: exact_fit_input_def)
  have cb: "createBuffer 1 1280 44100 = Inr exact_fit_silence"
    by (simp add: createBuffer_def exact_fit_silence_def)
  have cb': "createBuffer (numberOfChannels exact_fit_input) (length_ab exact_fit_input)
               (sampleRate exact_fit_input) = Inr exact_fit_silence"
    using cb by (simp add: exact_fit_input_def)
  have k: "1100 < length_ab exact_fit_input" by (simp add: exact_fit_input_def)
  have len: "length_ab exact_fit_input = 1280" by (simp add: exact_fit_input_def)
  have inp: "getChannelData exact_fit_input 0 = replicate 1280 1"
    by (simp add: exact_fit_input_def getChannelData_def)
  have visited: "starts_from 1280 0 = [0]"
    by (simp add: starts_from.simps hopSize_def windowSize_def)
  have full: "starts_from (Suc 1280) 0 = [0, 256]"
    by (simp add: starts_from.simps hopSize_def windowSize_def)
  have v: "fst (mono_stems exact_fit_input exact_fit_silence exact_fit_silence) ! 1100 = 0"
    unfolding mono_stems_processed(1)[OF wf n cb' cb' k] len visited
    by (simp add: contribution_def windowSize_def)
  have a: "snd (mono_stems exact_fit_input exact_fit_silence exact_fit_silence) ! 1100 = 0"
    unfolding mono_stems_processed(2)[OF wf n cb' cb' k] len visited
    by (simp add: contribution_def windowSize_def)
  have sv: "overlap_add vocalWeight (getChannelData exact_fit_input 0) 1100 = 1"
    unfolding overlap_add_def inp length_replicate sum_full_window_starts full
    by (simp add: contribution_def windowSize_def vocalWeight_def)
  have sa: "overlap_add accompanimentWeight (getChannelData exact_fit_input 0) 1100 = 45 / 128"
    unfolding overlap_add_def inp length_replicate sum_full_window_starts full
    by (simp add: contribution_def windowSize_def accompanimentWeight_def)
  show ?thesis using wf n cb visited v a sv sa by simp
qed

text \<open>
  Claim C3. For every channel of both output matrices the normalization finds
  \<open>peak\<close>, the largest absolute sample of the channel; when \<open>peak > 0\<close> every
  sample is multiplied by \<open>min 1 (0.9 / peak)\<close> and the peak afterwards is at most
  0.9; a channel whose peak is at most 0.9 is left as it is (the gain is 1); an
  all-zero channel is not modified.
\<close>

theorem normalizer_peak_gain:
  assumes "length vb = n" "length ab = n"
    and "list_all (\<lambda>ch. length ch = len) vb" "list_all (\<lambda>ch. length ch = len) ab"
    and "c < n"
  shows "case normalize_loop n len 0 (vb, ab) of (vb', ab') \<Rightarrow>
     max_loop (vb ! c) (ab ! c) len 0 (0, 0) = (peak (vb ! c), peak (ab ! c)) \<and>
     (0 < len \<longrightarrow> peak (vb ! c) = Max ((\<lambda>s. \<bar>s\<bar>) ` set (vb ! c)) \<and>
                peak (ab ! c) = Max ((\<lambda>s. \<bar>s\<bar>) ` set (ab ! c))) \<and>
     (peak (vb ! c) > 0 \<longrightarrow>
        vb' ! c = map (\<lambda>s. s * min 1 (0.9 / peak (vb ! c))) (vb ! c) \<and> peak (vb' ! c) \<le> 0.9) \<and>
     (peak (ab ! c) > 0 \<longrightarrow>
        ab' ! c = map (\<lambda>s. s * min 1 (0.9 / peak (ab ! c))) (ab ! c) \<and> peak (ab' ! c) \<le> 0.9) \<and>
     (peak (vb ! c) \<le> 0.9 \<longrightarrow> vb' ! c = vb ! c) \<and>
     (peak (ab ! c) \<le> 0.9 \<longrightarrow> ab' ! c = ab ! c) \<and>
     (0 < peak (vb ! c) \<and> peak (vb ! c) \<le> 0.9 \<longrightarrow> min 1 (0.9 / peak (vb ! c)) = 1) \<and>
     (0 < peak (ab ! c) \<and> peak (ab ! c) \<le> 0.9 \<longrightarrow> min 1 (0.9 / peak (ab ! c)) = 1) \<and>
     ((\<forall>s\<in>set (vb ! c). s = 0) \<longrightarrow> vb' ! c = vb ! c) \<and>
     ((\<forall>s\<in>set (ab ! c). s = 0) \<longrightarrow> ab' ! c = ab ! c)"
proof -
  have lv: "length (vb ! c) = len" and la: "length (ab ! c) = len"
    using assms by (simp_all add: list_all_length)
  have nv: "map normalized vb ! c = normalized (vb ! c)"
    and na: "map normalized ab ! c = normalized (ab ! c)"
    using assms by simp_all
  have 1: "max_loop (vb ! c) (ab ! c) len 0 (0, 0) = (peak (vb ! c), peak (ab ! c))"
    by (rule max_loop_peak[OF lv la])
  have 2: "0 < len \<longrightarrow> peak (vb ! c) = Max ((\<lambda>s. \<bar>s\<bar>) ` set (vb ! c)) \<and>
                peak (ab ! c) = Max ((\<lambda>s. \<bar>s\<bar>) ` set (ab ! c))"
  proof
    assume "0 < len"
    then have "vb ! c \<noteq> []" "ab ! c \<noteq> []" using lv la by auto
    then show "peak (vb ! c) = Max ((\<lambda>s. \<bar>s\<bar>) ` set (vb ! c)) \<and>
                peak (ab ! c) = Max ((\<lambda>s. \<bar>s\<bar>) ` set (ab ! c))"
      by (simp add: peak_nonempty)
  qed
  show ?thesis
    unfolding normalize_loop_map[OF assms(1-4)] prod.case nv na
    using 1 2 normalized_law[of "vb ! c"] normalized_law[of "ab ! c"] by blast
qed

theorem normalizer_peak_gain_witness:
  "length [[2, - 1 :: real]] = 1 \<and> length [[0, 0 :: real]] = 1 \<and>
   list_all (\<lambda>ch. length ch = 2) [[2, - 1 :: real]] \<and>
   list_all (\<lambda>ch. length ch = 2) [[0, 0 :: real]] \<and> (0::nat) < 1 \<and>
   peak [2, - 1] = 2 \<and> peak [0, 0] = 0 \<and>
   fst (normalize_loop 1 2 0 ([[2, - 1]], [[0, 0]])) ! 0
     = map (\<lambda>s. s * min 1 (0.9 / 2)) [2, - 1] \<and>
   peak (fst (normalize_loop 1 2 0 ([[2, - 1]], [[0, 0]])) ! 0) \<le> 0.9 \<and>
   snd (normalize_loop 1 2 0 ([[2, - 1]], [[0, 0]])) ! 0 = [0, 0]"
proof -
  have h1: "length [[2, - 1 :: real]] = 1" and h2: "length [[0, 0 :: real]] = 1"
    and h3: "list_all (\<lambda>ch. length ch = 2) [[2, - 1 :: real]]"
    and h4: "list_all (\<lambda>ch. length ch = 2) [[0, 0 :: real]]" and h5: "(0::nat) < 1"
    by simp_all
  have p: "peak [2, - 1] = 2" and q: "peak [0, 0] = 0" by (simp_all add: peak_def)
  obtain vb' ab' where n: "normalize_loop 1 2 0 ([[2, - 1]], [[0, 0]]) = (vb', ab')"
    by (metis surj_pair)
  have i: "[[2, - 1 :: real]] ! 0 = [2, - 1]" and j: "[[0, 0 :: real]] ! 0 = [0, 0]"
    by simp_all
  note t = normalizer_peak_gain[OF h1 h2 h3 h4 h5, unfolded n prod.case i j p q]
  have pos: "(0::real) < 2" and zero: "\<forall>s\<in>set [0, 0 :: real]. s = 0" by simp_all
  from t pos zero
  have r: "vb' ! 0 = map (\<lambda>s. s * min 1 (0.9 / 2)) [2, - 1] \<and> peak (vb' ! 0) \<le> 0.9 \<and>
        ab' ! 0 = [0, 0]"
    by blast
  have f: "fst (normalize_loop 1 2 0 ([[2, - 1]], [[0, 0]])) = vb'"
    and s: "snd (normalize_loop 1 2 0 ([[2, - 1]], [[0, 0]])) = ab'"
    using n by simp_all
  show ?thesis unfolding f s using r p q h1 h2 h3 h4 h5 by blast
qed

text \<open>
  Claim C4. The normalization is idempotent: a second pass over both matrices
  returns what the first pass returned.
\<close>

theorem normalizer_idempotent:
  assumes "length vb = n" "length ab = n"
    and "list_all (\<lambda>ch. length ch = len) vb" "list_all (\<lambda>ch. length ch = len) ab"
  shows "normalize_loop n len 0 (normalize_loop n len 0 (vb, ab)) = normalize_loop n len 0 (vb, ab)"
proof -
  have 1: "normalize_loop n len 0 (vb, ab) = (map normalized vb, map normalized ab)"
    by (rule normalize_loop_map[OF assms])
  have 2: "normalize_loop n len 0 (map normalized vb, map normalized ab)
        = (map normalized (map normalized vb), map normalized (map normalized ab))"
    using assms by (intro normalize_loop_map) (simp_all add: list_all_length length_normalized)
  show ?thesis unfolding 1 2 by (simp add: normalized_idem)
qed

theorem normalizer_idempotent_witness:
  "length [[2, - 1 :: real]] = 1 \<and> length [[0, 0 :: real]] = 1 \<and>
   list_all (\<lambda>ch. length ch = 2) [[2, - 1 :: real]] \<and>
   list_all (\<lambda>ch. length ch = 2) [[0, 0 :: real]] \<and>
   normalize_loop 1 2 0 (normalize_loop 1 2 0 ([[2, - 1]], [[0, 0]]))
     = normalize_loop 1 2 0 ([[2, - 1]], [[0, 0]])"
proof -
  have h1: "length [[2, - 1 :: real]] = 1" and h2: "length [[0, 0 :: real]] = 1"
    and h3: "list_all (\<lambda>ch. length ch = 2) [[2, - 1 :: real]]"
    and h4: "list_all (\<lambda>ch. length ch = 2) [[0, 0 :: real]]"
    by simp_all
  show ?thesis
    using normalizer_idempotent[OF h1 h2 h3 h4] by simp
qed

text \<open>
  Claim C5, as stated, fails: for the example input the peak of the vocals after the
  normalization is not 0.9, with the enhancement and without it.
\<close>

theorem example_peak_not_raised_counterexample:
  "peak (getChannelData (fst (projr (extractVocals (Some tf_reliable) example_input))) 0) \<noteq> 9 / 10 \<and>
   peak (getChannelData (fst (projr (extractVocals None example_input))) 0) \<noteq> 9 / 10"
proof -
  have t: "\<bar>tanh (1 / 2 * 1.2 :: real)\<bar> \<le> 0.9" using tanh_three_fifths by simp
  have 1: "extractVocals (Some tf_reliable) example_input
      = Inr (example_output (tanh (1 / 2 * 1.2)), example_output 0)"
    unfolding example_output_def
    by (rule constant_extract[OF _ _ enhance_constant_reliable t])
       (simp_all add: example_input_def)
  have 2: "extractVocals None example_input = Inr (example_output (1 / 2), example_output 0)"
    unfolding example_output_def
    by (rule constant_extract[where c = "1 / 2"])
       (simp_all add: example_input_def enhance_def)
  have "peak (replicate 88200 (tanh (3 / 5 :: real))) \<noteq> 9 / 10"
    using tanh_three_fifths by (simp add: peak_replicate)
  moreover have "peak (replicate 88200 (1 / 2 :: real)) \<noteq> 9 / 10"
    by (simp add: peak_replicate)
  ultimately show ?thesis
    unfolding 1 2 by (simp add: example_output_def getChannelData_def)
qed


text \<open>
  Claim C5, amended. For the input of two channels, two seconds at 44100 Hz and both
  channels constant 0.5, the centre is constant 0.5 and both sides are constant 0;
  before the enhancement the vocals are constant 0.5 and the accompaniment constant 0.
  The extraction returns vocals constant \<open>tanh 0.6\<close> with the enhancement and
  constant 0.5 without it; the normalization does not raise them, since their peak is
  below 0.9. The accompaniment has peak 0 and is left as it is.
\<close>

theorem example_constant_half:
  "map (center example_input) [0..<88200] = replicate 88200 (1 / 2) \<and>
   map (sideLeft example_input) [0..<88200] = replicate 88200 0 \<and>
   map (sideRight example_input) [0..<88200] = replicate 88200 0 \<and>
   stereo_stems example_input (example_output 0) (example_output 0)
     = (replicate 88200 (1 / 2), replicate 88200 (1 / 2), replicate 88200 0, replicate 88200 0) \<and>
   extractVocals (Some tf_reliable) example_input
     = Inr (example_output (tanh (3 / 5)), example_output 0) \<and>
   extractVocals None example_input = Inr (example_output (1 / 2), example_output 0) \<and>
   peak (replicate 88200 (tanh (3 / 5))) = tanh (3 / 5) \<and>
   0 < tanh (3 / 5 :: real) \<and> tanh (3 / 5 :: real) < 9 / 10 \<and>
   peak (replicate 88200 (1 / 2)) = 1 / 2 \<and>
   peak (replicate 88200 0) = 0 \<and>
   normalized (replicate 88200 0) = replicate 88200 0"
proof -
  have t: "\<bar>tanh (1 / 2 * 1.2 :: real)\<bar> \<le> 0.9" using tanh_three_fifths by simp
  have c: "map (center example_input) [0..<88200] = replicate 88200 (1 / 2)"
    by (rule nth_equalityI) (simp_all add: center_def example_input_def getChannelData_def)
  have sl: "map (sideLeft example_input) [0..<88200] = replicate 88200 0"
    by (rule nth_equalityI)
       (simp_all add: sideLeft_def center_def example_input_def getChannelData_def)
  have sr: "map (sideRight example_input) [0..<88200] = replicate 88200 0"
    by (rule nth_equalityI)
       (simp_all add: sideRight_def center_def example_input_def getChannelData_def)
  have st: "stereo_stems example_input (example_output 0) (example_output 0)
     = (replicate 88200 (1 / 2), replicate 88200 (1 / 2), replicate 88200 0, replicate 88200 0)"
    by (rule constant_stems[where r = 44100]) (simp_all add: example_input_def example_output_def)
  have 1: "extractVocals (Some tf_reliable) example_input
      = Inr (example_output (tanh (1 / 2 * 1.2)), example_output 0)"
    unfolding example_output_def
    by (rule constant_extract[OF _ _ enhance_constant_reliable t])
       (simp_all add: example_input_def)
  have 2: "extractVocals None example_input = Inr (example_output (1 / 2), example_output 0)"
    unfolding example_output_def
    by (rule constant_extract[where c = "1 / 2"])
       (simp_all add: example_input_def enhance_def)
  have p: "peak (replicate 88200 (tanh (3 / 5 :: real))) = tanh (3 / 5)"
    using tanh_three_fifths by (simp add: peak_replicate)
  have q: "peak (replicate 88200 (1 / 2 :: real)) = 1 / 2" by (simp add: peak_replicate)
  show ?thesis
    using c sl sr st 1 2 p q tanh_three_fifths
    by (simp add: peak_replicate_0 normalized_replicate_0)
qed

text \<open>
  Claim C6. A request for \<open>mp3\<close> returns the very string that a request for
  \<open>wav\<close> returns, and the promise of the whole pipeline settles the same way for
  both tags. Decoded from Base64, the string is the buffer \<open>wavData\<close>, and it
  parses as a valid wav container with the channel count, the sample rate and the
  length of the input, for every buffer whose sizes fit the fields of the header.
\<close>

theorem mp3_request_yields_wav:
  "audioBufferToBase64 b Mp3 = audioBufferToBase64 b Wav \<and>
   processAudioWithAI backend Mp3 outcome = processAudioWithAI backend Wav outcome \<and>
   map of_char (atob (audioBufferToBase64 b Mp3)) = wavData b \<and>
   (1 \<le> numberOfChannels b \<and> numberOfChannels b < 32768 \<and>
    sampleRate b * numberOfChannels b * 2 < 4294967296 \<and>
    36 + length_ab b * numberOfChannels b * 2 < 4294967296 \<longrightarrow>
      parse_wav (map of_char (atob (audioBufferToBase64 b Mp3)))
        = Some (numberOfChannels b, sampleRate b, length_ab b))"
proof -
  have eq: "audioBufferToBase64 x Mp3 = audioBufferToBase64 x Wav" for x
    by (simp add: audioBufferToBase64_def audioBufferToMp3Base64_def)
  have p: "processAudioWithAI backend Mp3 outcome = processAudioWithAI backend Wav outcome"
    by (cases outcome) (simp_all add: processAudioWithAI_def eq)
  have d: "map of_char (atob (audioBufferToBase64 b Mp3)) = wavData b"
    by (simp add: audioBufferToBase64_def audioBufferToMp3Base64_def audioBufferToWavBase64_def
        atob_btoa map_of_char_char_of wavData_spec(2) del: map_map)
  show ?thesis unfolding d using eq p parse_wavData[of b] by simp
qed

theorem mp3_request_yields_wav_witness:
  "(1::nat) \<le> 2 \<and> (2::nat) < 32768 \<and> (44100 * 2 * 2 :: nat) < 4294967296 \<and>
   (36 + 2 * 2 * 2 :: nat) < 4294967296 \<and>
   parse_wav (map of_char (atob (audioBufferToBase64
       \<lparr>length_ab = 2, sampleRate = 44100, numberOfChannels = 2,
          channelData = [[1, - 1], [1 / 2, - 1 / 4]]\<rparr> Mp3)))
     = Some (2, 44100, 2) \<and>
   audioBufferToBase64
       \<lparr>length_ab = 2, sampleRate = 44100, numberOfChannels = 2,
          channelData = [[1, - 1], [1 / 2, - 1 / 4]]\<rparr> Mp3
     = audioBufferToBase64
       \<lparr>length_ab = 2, sampleRate = 44100, numberOfChannels = 2,
          channelData = [[1, - 1], [1 / 2, - 1 / 4]]\<rparr> Wav"
proof -
  let ?b = "\<lparr>length_ab = 2, sampleRate = 44100, numberOfChannels = 2,
          channelData = [[1, - 1], [1 / 2, - 1 / 4 :: real]]\<rparr>"
  note t = mp3_request_yields_wav[of ?b None RunTimedOut]
  have h: "1 \<le> numberOfChannels ?b \<and> numberOfChannels ?b < 32768 \<and>
    sampleRate ?b * numberOfChannels ?b * 2 < 4294967296 \<and>
    36 + length_ab ?b * numberOfChannels ?b * 2 < 4294967296"
    by simp
  from t h have "parse_wav (map of_char (atob (audioBufferToBase64 ?b Mp3)))
      = Some (numberOfChannels ?b, sampleRate ?b, length_ab ?b)"
    by blast
  then have 1: "parse_wav (map of_char (atob (audioBufferToBase64 ?b Mp3))) = Some (2, 44100, 2)"
    by simp
  from t have 2: "audioBufferToBase64 ?b Mp3 = audioBufferToBase64 ?b Wav" by blast
  show ?thesis using 1 2 by simp
qed

text \<open>
  Claim C7, as stated, fails in two ways. When a \<open>dispose\<close> call throws, the
  enhancement has failed and the fault is caught, but the channels already hold the
  enhanced data. And when the library could not be loaded, no run goes on without
  it: the request is rejected with an error.
\<close>

theorem enhancement_fault_after_copy_back_counterexample:
  "tf_dispose tf_dispose_throws = Inl ''tfError'' \<and>
   enhance (Some tf_dispose_throws) 1 ([1], [1], [0], [0]) \<noteq> ([1], [1], [0], [0]) \<and>
   tf (fst (run_events Wav [SetInputFile (Some ''song''), EngineFailed, Click])) = None \<and>
   snd (run_events Wav [SetInputFile (Some ''song''), EngineFailed, Click]) = [] \<and>
   error (fst (run_events Wav [SetInputFile (Some ''song''), EngineFailed, Click]))
     = Some ''Audio processing engine is not ready yet. Please wait a moment.''"
proof -
  have d: "tf_dispose tf_dispose_throws = Inl ''tfError''"
    by (simp add: tf_dispose_def bind_exn_def tf_do_def tf_dispose_throws_def)
  have ok: "\<not> list_ex tf_dispose_throws transform_calls"
    by (simp add: tf_dispose_throws_def transform_calls_def)
  have "enhance (Some tf_dispose_throws) 1 ([1], [1], [0], [0])
      = (map (\<lambda>x. tanh (x * 1.2)) [1], map (\<lambda>x. tanh (x * 1.2)) [1],
         map (\<lambda>x. tanh (x * 1.1)) [0], map (\<lambda>x. tanh (x * 1.1)) [0])"
    by (rule enhance_copies_back[OF ok]) simp_all
  then have "fst (enhance (Some tf_dispose_throws) 1 ([1], [1], [0], [0])) = [tanh (6 / 5)]"
    by simp
  moreover have "tanh (6 / 5 :: real) \<noteq> 1" using tanh_real_lt_1[of "6 / 5"] by simp
  ultimately have e: "enhance (Some tf_dispose_throws) 1 ([1], [1], [0], [0])
      \<noteq> ([1], [1], [0], [0])"
    by auto
  have r: "tf (fst (run_events Wav [SetInputFile (Some ''song''), EngineFailed, Click])) = None"
    "snd (run_events Wav [SetInputFile (Some ''song''), EngineFailed, Click]) = []"
    "error (fst (run_events Wav [SetInputFile (Some ''song''), EngineFailed, Click]))
       = Some ''Audio processing engine is not ready yet. Please wait a moment.''"
    by (simp_all add: run_events_def initial_state_def handleExtractVocals_def)
  show ?thesis using d e r by simp
qed

text \<open>
  Claim C7, amended. A run is in flight only with the library loaded. When one of the
  calls that make, transform or read back the tensors throws, the fault is caught and
  the extraction goes on with the channels as they were before the enhancement, as it
  does when \<open>extractVocals\<close> finds no library. Whatever call of the library throws,
  the extraction of a decoded buffer returns its two buffers, the promise resolves,
  and the run ends with a result and without an error.
\<close>

theorem enhancement_fault_caught:
  assumes "1 \<le> numberOfChannels b" and "1 \<le> length_ab b" and "tf s = backend"
  shows "(\<exists>vocals accompaniment. extractVocals backend b = Inr (vocals, accompaniment)) \<and>
         (\<exists>v a. processAudioWithAI backend fmt (Decoded b) = Inr (v, a)) \<and>
         error (onload_settle fmt original (Decoded b) s) = error s \<and>
         result (onload_settle fmt original (Decoded b) s) \<noteq> None \<and>
         (stops_before_copy_back backend \<longrightarrow>
            enhance backend len st = st \<and>
            extractVocals backend b = extractVocals None b \<and>
            processAudioWithAI backend fmt (Decoded b) = processAudioWithAI None fmt (Decoded b)) \<and>
         (case run_events fmt evs of
            (s', runs') \<Rightarrow>
              (engineLoaded s' \<longleftrightarrow> tf s' \<noteq> None) \<and> (runs' \<noteq> [] \<longrightarrow> tf s' \<noteq> None))"
proof -
  obtain vocals accompaniment where ev: "extractVocals backend b = Inr (vocals, accompaniment)"
    using extractVocals_returns[OF assms(1,2)] by blast
  have p: "processAudioWithAI backend fmt (Decoded b)
      = Inr (audioBufferToBase64 vocals fmt, audioBufferToBase64 accompaniment fmt)"
    by (simp add: processAudioWithAI_def ev bind_exn_def)
  have 1: "error (onload_settle fmt original (Decoded b) s) = error s"
    and 2: "result (onload_settle fmt original (Decoded b) s) \<noteq> None"
    using p assms(3) by (simp_all add: onload_settle_def)
  have 3: "stops_before_copy_back backend \<longrightarrow>
            enhance backend len st = st \<and>
            extractVocals backend b = extractVocals None b \<and>
            processAudioWithAI backend fmt (Decoded b) = processAudioWithAI None fmt (Decoded b)"
    by (simp add: enhance_fails extractVocals_fails processAudioWithAI_def)
  have 4: "case run_events fmt evs of
            (s', runs') \<Rightarrow>
              (engineLoaded s' \<longleftrightarrow> tf s' \<noteq> None) \<and> (runs' \<noteq> [] \<longrightarrow> tf s' \<noteq> None)"
    using run_events_engine_invariant[of fmt evs]
    by (auto simp: engine_invariant_def split: prod.splits)
  show ?thesis using ev p 1 2 3 4 by simp
qed

theorem enhancement_fault_caught_witness:
  "(1::nat) \<le> numberOfChannels \<lparr>length_ab = 2, sampleRate = 44100, numberOfChannels = 2,
              channelData = [[1, 0], [0, 1]]\<rparr> \<and>
   stops_before_copy_back (Some (\<lambda>c. c = TanhVocals)) \<and>
   extractVocals (Some (\<lambda>c. c = TanhVocals))
       \<lparr>length_ab = 2, sampleRate = 44100, numberOfChannels = 2, channelData = [[1, 0], [0, 1]]\<rparr>
     = extractVocals None
       \<lparr>length_ab = 2, sampleRate = 44100, numberOfChannels = 2, channelData = [[1, 0], [0, 1]]\<rparr> \<and>
   error (onload_settle Wav None
            (Decoded \<lparr>length_ab = 2, sampleRate = 44100, numberOfChannels = 2,
                      channelData = [[1, 0], [0, 1]]\<rparr>)
            (initial_state\<lparr>tf := Some (\<lambda>c. c = TanhVocals)\<rparr>)) = None \<and>
   snd (run_events Wav [SetInputFile (Some ''song''), EngineReady (\<lambda>c. c = TanhVocals), Click])
     = [Reading] \<and>
   tf (fst (run_events Wav
              [SetInputFile (Some ''song''), EngineReady (\<lambda>c. c = TanhVocals), Click])) \<noteq> None"
proof -
  let ?b = "\<lparr>length_ab = 2, sampleRate = 44100, numberOfChannels = 2,
              channelData = [[1, 0], [0, 1::real]]\<rparr>"
  let ?tf = "Some (\<lambda>c. c = TanhVocals)"
  let ?s = "initial_state\<lparr>tf := ?tf\<rparr>"
  let ?evs = "[SetInputFile (Some ''song''), EngineReady (\<lambda>c. c = TanhVocals), Click]"
  have h1: "1 \<le> numberOfChannels ?b" and h2: "1 \<le> length_ab ?b" and h3: "tf ?s = ?tf"
    by simp_all
  have h4: "stops_before_copy_back ?tf"
    by (simp add: stops_before_copy_back_def transform_calls_def)
  have r: "snd (run_events Wav ?evs) = [Reading]"
    by (simp add: run_events_def initial_state_def handleExtractVocals_def)
  note t = enhancement_fault_caught[OF h1 h2 h3, of Wav None 0 "([], [], [], [])" ?evs]
  have t5: "tf (fst (run_events Wav ?evs)) \<noteq> None"
    using t[THEN conjunct2, THEN conjunct2, THEN conjunct2, THEN conjunct2, THEN conjunct2] r
    by (cases "run_events Wav ?evs") auto
  show ?thesis
    using t h1 h4 r t5 by (simp add: initial_state_def)
qed

text \<open>
  Claim C8. A call of the extraction entry point while \<open>isProcessing\<close> is true
  returns at once, leaves the whole state as it is and starts no reader, so no second
  decode begins; requests are never queued. Over every sequence of events at most one
  run is in flight, and \<open>isProcessing\<close> is true exactly while one is.
\<close>

theorem busy_request_rejected:
  "(isProcessing s \<longrightarrow>
      handleExtractVocals s = (s, None) \<and> dispatch fmt (s, runs) Click = (s, runs)) \<and>
   (case run_events fmt evs of
      (s', runs') \<Rightarrow> length runs' \<le> 1 \<and> (isProcessing s' \<longleftrightarrow> runs' \<noteq> []))"
proof -
  have "isProcessing s \<longrightarrow>
      handleExtractVocals s = (s, None) \<and> dispatch fmt (s, runs) Click = (s, runs)"
    by (simp add: handleExtractVocals_def)
  moreover have "case run_events fmt evs of
      (s', runs') \<Rightarrow> length runs' \<le> 1 \<and> (isProcessing s' \<longleftrightarrow> runs' \<noteq> [])"
    using run_events_invariant[of fmt evs] by (auto simp: run_invariant_def split: prod.splits)
  ultimately show ?thesis by simp
qed

theorem busy_request_rejected_witness:
  "isProcessing (fst (run_events Wav [SetInputFile (Some ''song''), EngineReady (\<lambda>c. False), Click])) \<and>
   handleExtractVocals
      (fst (run_events Wav [SetInputFile (Some ''song''), EngineReady (\<lambda>c. False), Click]))
     = (fst (run_events Wav [SetInputFile (Some ''song''), EngineReady (\<lambda>c. False), Click]), None) \<and>
   snd (run_events Wav [SetInputFile (Some ''song''), EngineReady (\<lambda>c. False), Click, Click])
     = [Reading]"
proof -
  let ?evs = "[SetInputFile (Some ''song''), EngineReady (\<lambda>c. False), Click]"
  have p: "isProcessing (fst (run_events Wav ?evs))"
    by (simp add: run_events_def initial_state_def handleExtractVocals_def)
  have r: "snd (run_events Wav ?evs) = [Reading]"
    by (simp add: run_events_def initial_state_def handleExtractVocals_def)
  have e: "run_events Wav (?evs @ [Click])
      = dispatch Wav (fst (run_events Wav ?evs), snd (run_events Wav ?evs)) Click"
    by (simp add: run_events_def)
  from busy_request_rejected[of "fst (run_events Wav ?evs)" Wav "snd (run_events Wav ?evs)" "[]"] p
  have "handleExtractVocals (fst (run_events Wav ?evs)) = (fst (run_events Wav ?evs), None) \<and>
        dispatch Wav (fst (run_events Wav ?evs), snd (run_events Wav ?evs)) Click
          = (fst (run_events Wav ?evs), snd (run_events Wav ?evs))"
    by blast
  with p r e show ?thesis by simp
qed


text \<open>
  Claim C9, as stated, fails: a request without an input file is rejected, but it
  changes the field \<open>error\<close>.
\<close>

theorem rejected_request_changes_all_fields_counterexample:
  "isProcessing initial_state = False \<and> inputFile initial_state = None \<and>
   snd (handleExtractVocals initial_state) = None \<and>
   error (fst (handleExtractVocals initial_state)) \<noteq> error initial_state"
  by (simp add: handleExtractVocals_def initial_state_def)


text \<open>
  Claim C9, amended. A request is rejected whenever the component is processing, or no
  input file is set, or the engine is not loaded: no reader is started and
  \<open>inputFile\<close>, \<open>isProcessing\<close>, \<open>progress\<close> and \<open>result\<close> are left as they
  were. While processing \<open>error\<close> is left as it was too; otherwise \<open>error\<close> is set
  to the message for the missing file or for the engine that is not ready.
\<close>

theorem rejected_request_frame:
  assumes "isProcessing s \<or> inputFile s = None \<or> \<not> engineLoaded s"
  shows "snd (handleExtractVocals s) = None \<and>
         inputFile (fst (handleExtractVocals s)) = inputFile s \<and>
         isProcessing (fst (handleExtractVocals s)) = isProcessing s \<and>
         progress (fst (handleExtractVocals s)) = progress s \<and>
         result (fst (handleExtractVocals s)) = result s \<and>
         engineLoaded (fst (handleExtractVocals s)) = engineLoaded s \<and>
         tf (fst (handleExtractVocals s)) = tf s \<and>
         error (fst (handleExtractVocals s)) =
           (if isProcessing s then error s
            else if inputFile s = None then Some ''Please select an audio file''
            else Some ''Audio processing engine is not ready yet. Please wait a moment.'')"
  using assms by (auto simp: handleExtractVocals_def split: option.splits)

theorem rejected_request_frame_witness:
  "inputFile initial_state = None \<and>
   snd (handleExtractVocals initial_state) = None \<and>
   isProcessing (fst (handleExtractVocals initial_state)) = isProcessing initial_state \<and>
   error (fst (handleExtractVocals initial_state)) = Some ''Please select an audio file''"
proof -
  have h: "isProcessing initial_state \<or> inputFile initial_state = None \<or> \<not> engineLoaded initial_state"
    by (simp add: initial_state_def)
  show ?thesis using rejected_request_frame[OF h] h by (simp add: initial_state_def)
qed

text \<open>
  Claim C10. For a mono input of at most 1024 samples the loop over the windows
  processes no window: both stems are zero before the normalization, and the
  extraction returns two silent buffers, whatever the input samples are. This holds
  for an input of exactly 1024 samples too, where one full window would fit.
\<close>

theorem mono_short_input_silent:
  assumes wf: "wf_buffer b" and n: "numberOfChannels b = 1"
    and L: "1 \<le> length_ab b" and short: "length_ab b \<le> windowSize"
    and vb: "createBuffer (numberOfChannels b) (length_ab b) (sampleRate b) = Inr vb"
    and ab: "createBuffer (numberOfChannels b) (length_ab b) (sampleRate b) = Inr ab"
  shows "starts_from (length_ab b) 0 = [] \<and>
         mono_stems b vb ab = (replicate (length_ab b) 0, replicate (length_ab b) 0) \<and>
         extractVocals backend b =
           Inr (\<lparr>length_ab = length_ab b, sampleRate = sampleRate b, numberOfChannels = 1,
                  channelData = [replicate (length_ab b) 0]\<rparr>,
                \<lparr>length_ab = length_ab b, sampleRate = sampleRate b, numberOfChannels = 1,
                  channelData = [replicate (length_ab b) 0]\<rparr>)"
proof -
  let ?len = "length_ab b"
  let ?z = "replicate ?len (0::real)"
  let ?zb = "\<lparr>length_ab = ?len, sampleRate = sampleRate b, numberOfChannels = 1,
                  channelData = [?z]\<rparr>"
  have 1: "starts_from ?len 0 = []"
    using short by (simp add: starts_from.simps[of ?len 0])
  have cb: "createBuffer (numberOfChannels b) ?len (sampleRate b) = Inr ?zb"
    using n L by (simp add: createBuffer_def)
  have vbz: "vb = ?zb" and abz: "ab = ?zb" using vb ab cb by simp_all
  have 2: "mono_stems b ?zb ?zb = (?z, ?z)"
    using short by (simp add: mono_stems_def getChannelData_def mono_loop.simps)
  have nl: "normalize_loop 1 ?len 0 ([?z], [?z]) = ([?z], [?z])"
    using normalize_loop_map[of "[?z]" 1 "[?z]" ?len] by (simp add: normalized_replicate_0)
  have 3: "extractVocals backend b = Inr (?zb, ?zb)"
    using n cb 2 nl by (simp add: extractVocals_def bind_exn_def separate_def)
  show ?thesis using 1 2 3 vbz abz by simp
qed

theorem mono_short_input_silent_witness:
  "wf_buffer \<lparr>length_ab = 1024, sampleRate = 44100, numberOfChannels = 1,
              channelData = [replicate 1024 1]\<rparr> \<and>
   (1::nat) \<le> 1024 \<and> 1024 \<le> windowSize \<and> 0 + windowSize \<le> 1024 \<and>
   createBuffer 1 1024 44100 = Inr \<lparr>length_ab = 1024, sampleRate = 44100, numberOfChannels = 1,
              channelData = [replicate 1024 0]\<rparr> \<and>
   extractVocals None \<lparr>length_ab = 1024, sampleRate = 44100, numberOfChannels = 1,
              channelData = [replicate 1024 1]\<rparr> =
     Inr (\<lparr>length_ab = 1024, sampleRate = 44100, numberOfChannels = 1,
              channelData = [replicate 1024 0]\<rparr>,
          \<lparr>length_ab = 1024, sampleRate = 44100, numberOfChannels = 1,
              channelData = [replicate 1024 0]\<rparr>)"
proof -
  let ?b = "\<lparr>length_ab = 1024, sampleRate = 44100, numberOfChannels = 1,
              channelData = [replicate 1024 (1::real)]\<rparr>"
  let ?z = "\<lparr>length_ab = 1024, sampleRate = 44100, numberOfChannels = 1,
              channelData = [replicate 1024 (0::real)]\<rparr>"
  have h1: "wf_buffer ?b" by (simp add: wf_buffer_def)
  have h2: "numberOfChannels ?b = 1" by simp
  have h3: "1 \<le> length_ab ?b" by simp
  have h4: "length_ab ?b \<le> windowSize" by (simp add: windowSize_def)
  have h5: "createBuffer (numberOfChannels ?b) (length_ab ?b) (sampleRate ?b) = Inr ?z"
    by (simp add: createBuffer_def)
  show ?thesis
    using mono_short_input_silent[OF h1 h2 h3 h4 h5 h5, of None] h1 h4 h5
    by (simp add: windowSize_def)
qed

end
